theory Spec2Isabelle
  imports Complex_Main "HOL-Library.Multiset"
begin

section \<open>Transcript reassembly and incremental-summary feed of the TranscriptProvider\<close>

text \<open>
  The development embeds the transcript pipeline of the React provider
  \<^verbatim>\<open>TranscriptProvider\<close> (file \<^verbatim>\<open>src/unnamed/part_000\<close>): the sequence buffer of
  \<^verbatim>\<open>processBufferedTranscripts\<close>, the merge done by the \<^verbatim>\<open>setTranscripts\<close> updater,
  the manual \<^verbatim>\<open>addTranscript\<close> operation, and the summary session driven by the
  recording-started and recording-stopped listeners.

  JavaScript numbers are IEEE doubles. Sequence ids, counters and \<^verbatim>\<open>Date.now()\<close> are
  integers far below \<open>2^53\<close> and are embedded as \<open>int\<close>/\<open>nat\<close>. Chunk start times are
  finite doubles, embedded as the rationals they denote: the comparators only test a
  difference against zero and hand its sign to \<^verbatim>\<open>Array.prototype.sort\<close>, and the
  difference of two finite doubles has the sign of the exact difference.
\<close>

subsection \<open>Data model\<close>

text \<open>
  Modelled from the spec: the interfaces \<^verbatim>\<open>Transcript\<close> and \<^verbatim>\<open>TranscriptUpdate\<close> are
  declared in \<^verbatim>\<open>@/types\<close>, which is not among the sources. The fields are those the
  provider reads and writes. An update carries plain values; a transcript's
  \<^verbatim>\<open>sequence_id\<close> and \<^verbatim>\<open>chunk_start_time\<close> may be \<^verbatim>\<open>undefined\<close> (the provider tests
  \<^verbatim>\<open>sequence_id !== undefined\<close> and writes \<^verbatim>\<open>chunk_start_time || 0\<close>), which is \<open>None\<close>.
\<close>

record TranscriptUpdate =
  u_text :: string
  u_timestamp :: string
  u_sequence_id :: int
  u_chunk_start_time :: rat
  u_is_partial :: bool
  u_confidence :: rat
  u_audio_start_time :: rat
  u_audio_end_time :: rat
  u_duration :: rat

record Transcript =
  t_id :: string
  t_text :: string
  t_timestamp :: string
  sequence_id :: "int option"
  chunk_start_time :: "rat option"
  is_partial :: bool
  confidence :: "rat option"
  audio_start_time :: "rat option"
  audio_end_time :: "rat option"
  duration :: "rat option"

text \<open>\<^verbatim>\<open>x || 0\<close> on an optional number: \<^verbatim>\<open>undefined\<close> and \<open>0\<close> both give \<open>0\<close>.\<close>

definition or0 :: "'a::zero option \<Rightarrow> 'a" where
  "or0 x = (case x of None \<Rightarrow> 0 | Some v \<Rightarrow> v)"

subsection \<open>Sorting with a comparator\<close>

text \<open>
  \<^verbatim>\<open>Array.prototype.sort(cmp)\<close> is a stable sort: \<open>a\<close> stays before \<open>b\<close> unless
  \<open>cmp a b > 0\<close>. It is embedded as a stable insertion sort driven by the comparator.
\<close>

fun insert_by :: "('a \<Rightarrow> 'a \<Rightarrow> rat) \<Rightarrow> 'a \<Rightarrow> 'a list \<Rightarrow> 'a list" where
  "insert_by cmp x [] = [x]"
| "insert_by cmp x (y # ys) = (if cmp x y \<le> 0 then x # y # ys else y # insert_by cmp x ys)"

definition sort_by :: "('a \<Rightarrow> 'a \<Rightarrow> rat) \<Rightarrow> 'a list \<Rightarrow> 'a list" where
  "sort_by cmp xs = foldr (insert_by cmp) xs []"

text \<open>
  The comparator written out twice in \<^verbatim>\<open>processBufferedTranscripts\<close> (in
  \<^verbatim>\<open>sortTranscripts\<close> and in the \<^verbatim>\<open>setTranscripts\<close> updater): chunk start time
  first, sequence id second.
\<close>

definition compareTranscripts :: "Transcript \<Rightarrow> Transcript \<Rightarrow> rat" where
  "compareTranscripts a b =
     (let chunkTimeDiff = or0 (chunk_start_time a) - or0 (chunk_start_time b)
      in if chunkTimeDiff \<noteq> 0 then chunkTimeDiff
         else of_int (or0 (sequence_id a) - or0 (sequence_id b)))"

definition sortTranscripts :: "Transcript list \<Rightarrow> Transcript list" where
  "sortTranscripts ts = sort_by compareTranscripts ts"

text \<open>The comparator of \<^verbatim>\<open>addTranscript\<close>: sequence id only.\<close>

definition compareSequence :: "Transcript \<Rightarrow> Transcript \<Rightarrow> rat" where
  "compareSequence a b = of_int (or0 (sequence_id a) - or0 (sequence_id b))"

subsection \<open>Merger: the \<^verbatim>\<open>setTranscripts\<close> updater\<close>

text \<open>
  \<^verbatim>\<open>setTranscripts(prev => ...)\<close> of \<^verbatim>\<open>processBufferedTranscripts\<close>. The set of existing
  sequence ids leaves out \<^verbatim>\<open>undefined\<close>; a new transcript is kept when its sequence id
  is defined and not in that set; with nothing to add the previous list is returned
  as it is, otherwise the concatenation is sorted again.
\<close>

definition existingSequenceIds :: "Transcript list \<Rightarrow> int option list" where
  "existingSequenceIds prev = filter (\<lambda>i. i \<noteq> None) (map sequence_id prev)"

definition uniqueNewTranscripts :: "Transcript list \<Rightarrow> Transcript list \<Rightarrow> Transcript list" where
  "uniqueNewTranscripts allNewTranscripts prev =
     filter (\<lambda>t. sequence_id t \<noteq> None \<and> sequence_id t \<notin> set (existingSequenceIds prev))
       allNewTranscripts"

definition merge :: "Transcript list \<Rightarrow> Transcript list \<Rightarrow> Transcript list" where
  "merge allNewTranscripts prev =
     (let uniq = uniqueNewTranscripts allNewTranscripts prev
      in if length uniq = 0 then prev
         else sort_by compareTranscripts (prev @ uniq))"

text \<open>The updater is only installed for a non-empty batch.\<close>

definition merge_batch :: "Transcript list \<Rightarrow> Transcript list \<Rightarrow> Transcript list" where
  "merge_batch allNewTranscripts prev =
     (if length allNewTranscripts > 0 then merge allNewTranscripts prev else prev)"

subsection \<open>Strings: number rendering, \<^verbatim>\<open>parseInt\<close>, \<^verbatim>\<open>split\<close>, \<^verbatim>\<open>join\<close>\<close>

text \<open>
  Strings are lists of 8-bit characters; every string the pipeline builds or parses here
  is ASCII. \<^verbatim>\<open>Number.prototype.toString\<close> on a non-negative integer is its decimal
  rendering, with a leading minus sign for a negative one.
\<close>

definition digit_char :: "nat \<Rightarrow> char" where
  "digit_char d = char_of (48 + d)"

fun nat_toString :: "nat \<Rightarrow> string" where
  "nat_toString n =
     (if n < 10 then [digit_char n] else nat_toString (n div 10) @ [digit_char (n mod 10)])"

declare nat_toString.simps [simp del]

definition int_toString :: "int \<Rightarrow> string" where
  "int_toString i = (if i < 0 then CHR ''-'' # nat_toString (nat (- i)) else nat_toString (nat i))"

text \<open>
  \<^verbatim>\<open>parseInt(s)\<close> with no radix: leading white space is skipped, then an optional sign,
  then a \<^verbatim>\<open>0x\<close>/\<^verbatim>\<open>0X\<close> prefix selects radix 16 (radix 10 otherwise), then the longest
  run of digits of that radix is read; with no digit the result is \<^verbatim>\<open>NaN\<close>, which is
  \<open>None\<close>.
\<close>

definition is_space :: "char \<Rightarrow> bool" where
  "is_space c = ((of_char c :: nat) \<in> {9, 10, 11, 12, 13, 32})"

definition is_digit :: "char \<Rightarrow> bool" where
  "is_digit c = (48 \<le> (of_char c :: nat) \<and> (of_char c :: nat) \<le> 57)"

definition digit_val :: "char \<Rightarrow> nat" where
  "digit_val c = of_char c - 48"

definition is_hex_digit :: "char \<Rightarrow> bool" where
  "is_hex_digit c =
     (is_digit c \<or> (65 \<le> (of_char c :: nat) \<and> (of_char c :: nat) \<le> 70)
        \<or> (97 \<le> (of_char c :: nat) \<and> (of_char c :: nat) \<le> 102))"

definition hex_val :: "char \<Rightarrow> nat" where
  "hex_val c =
     (if is_digit c then digit_val c
      else if (of_char c :: nat) \<le> 70 then of_char c - 55 else of_char c - 87)"

definition read_digits :: "nat \<Rightarrow> (char \<Rightarrow> bool) \<Rightarrow> (char \<Rightarrow> nat) \<Rightarrow> string \<Rightarrow> nat option" where
  "read_digits radix ok val s =
     (let ds = takeWhile ok s
      in if ds = [] then None else Some (foldl (\<lambda>a c. radix * a + val c) 0 ds))"

definition read_unsigned :: "string \<Rightarrow> nat option" where
  "read_unsigned s =
     (if take 2 s = ''0x'' \<or> take 2 s = ''0X''
      then read_digits 16 is_hex_digit hex_val (drop 2 s)
      else read_digits 10 is_digit digit_val s)"

definition parseInt :: "string \<Rightarrow> int option" where
  "parseInt s =
     (let s1 = dropWhile is_space s
      in if s1 \<noteq> [] \<and> hd s1 = CHR ''-'' then map_option (\<lambda>n. - int n) (read_unsigned (tl s1))
         else if s1 \<noteq> [] \<and> hd s1 = CHR ''+'' then map_option int (read_unsigned (tl s1))
         else map_option int (read_unsigned s1))"

text \<open>\<^verbatim>\<open>s.split('-')[0]\<close>: the part of \<open>s\<close> before its first \<^verbatim>\<open>-\<close>, all of \<open>s\<close> without one.\<close>

definition split_dash_first :: "string \<Rightarrow> string" where
  "split_dash_first s = takeWhile (\<lambda>c. c \<noteq> CHR ''-'') s"

text \<open>\<^verbatim>\<open>Array.prototype.join(sep)\<close> on an array of strings.\<close>

fun join :: "string \<Rightarrow> string list \<Rightarrow> string" where
  "join sep [] = []"
| "join sep [x] = x"
| "join sep (x # y # ys) = x @ sep @ join sep (y # ys)"

subsection \<open>The sequence buffer: a JavaScript \<^verbatim>\<open>Map\<close> in insertion order\<close>

text \<open>
  \<^verbatim>\<open>transcriptBuffer\<close> is a \<^verbatim>\<open>Map<number, Transcript>\<close>. A \<^verbatim>\<open>Map\<close> iterates in insertion
  order, so it is an association list: \<^verbatim>\<open>set\<close> replaces the value of a present key in
  place and appends a new key at the end, \<^verbatim>\<open>delete\<close> removes the key.
\<close>

type_synonym buffer = "(int \<times> Transcript) list"

definition Map_get :: "int \<Rightarrow> buffer \<Rightarrow> Transcript option" where
  "Map_get k buf = map_of buf k"

definition Map_has :: "int \<Rightarrow> buffer \<Rightarrow> bool" where
  "Map_has k buf = (Map_get k buf \<noteq> None)"

fun Map_set :: "int \<Rightarrow> Transcript \<Rightarrow> buffer \<Rightarrow> buffer" where
  "Map_set k v [] = [(k, v)]"
| "Map_set k v (p # ps) = (if fst p = k then (k, v) # ps else p # Map_set k v ps)"

definition Map_delete :: "int \<Rightarrow> buffer \<Rightarrow> buffer" where
  "Map_delete k buf = filter (\<lambda>p. fst p \<noteq> k) buf"

lemma Map_delete_shorter: "Map_get k buf = Some t \<Longrightarrow> length (Map_delete k buf) < length buf"
proof -
  assume "Map_get k buf = Some t"
  then have "(k, t) \<in> set buf"
    unfolding Map_get_def by (rule map_of_SomeD)
  then show ?thesis
    unfolding Map_delete_def by (intro length_filter_less [of "(k, t)"]) simp_all
qed

text \<open>
  The \<^verbatim>\<open>while (transcriptBuffer.has(nextSequence))\<close> loop: the contiguous run. The loop
  variables are \<open>nextSequence\<close> and the triple of \<open>sortedTranscripts\<close>, the buffer and
  \<open>lastProcessedSequence\<close>.
\<close>

function sequential_loop ::
  "int \<Rightarrow> Transcript list \<times> buffer \<times> int \<Rightarrow> Transcript list \<times> buffer \<times> int" where
  "sequential_loop nextSequence (sortedTranscripts, buf, lastProcessed) =
     (case Map_get nextSequence buf of
        None \<Rightarrow> (sortedTranscripts, buf, lastProcessed)
      | Some bufferedTranscript \<Rightarrow>
          sequential_loop (nextSequence + 1)
            (sortedTranscripts @ [bufferedTranscript], Map_delete nextSequence buf, nextSequence))"
  by pat_completeness auto
termination
  by (relation "measure (\<lambda>(n, srt, buf, l). length buf)") (simp_all add: Map_delete_shorter)

declare sequential_loop.simps [simp del]

definition staleThreshold :: int where
  "staleThreshold = 100"

definition recentThreshold :: int where
  "recentThreshold = 0"

text \<open>
  \<^verbatim>\<open>now - parseInt(transcript.id.split('-')[0])\<close>; \<open>None\<close> is \<^verbatim>\<open>NaN\<close>, for which both
  comparisons of the loop below are false.
\<close>

definition transcriptAge :: "nat \<Rightarrow> Transcript \<Rightarrow> int option" where
  "transcriptAge now transcript =
     map_option (\<lambda>created. int now - created) (parseInt (split_dash_first (t_id transcript)))"

record classified =
  staleTranscripts :: "Transcript list"
  recentTranscripts :: "Transcript list"
  forceFlushTranscripts :: "Transcript list"
  remaining :: buffer

text \<open>One round of the \<^verbatim>\<open>for (const [sequenceId, transcript] of transcriptBuffer.entries())\<close> loop.\<close>

definition classify_entry :: "bool \<Rightarrow> nat \<Rightarrow> classified \<Rightarrow> int \<times> Transcript \<Rightarrow> classified" where
  "classify_entry forceFlush now c e =
     (let sequenceId = fst e; transcript = snd e
      in if forceFlush
         then c\<lparr>forceFlushTranscripts := forceFlushTranscripts c @ [transcript],
                remaining := Map_delete sequenceId (remaining c)\<rparr>
         else (case transcriptAge now transcript of
                 None \<Rightarrow> c
               | Some age \<Rightarrow>
                   if age > staleThreshold
                   then c\<lparr>staleTranscripts := staleTranscripts c @ [transcript],
                          remaining := Map_delete sequenceId (remaining c)\<rparr>
                   else if age \<ge> recentThreshold
                   then c\<lparr>recentTranscripts := recentTranscripts c @ [transcript],
                          remaining := Map_delete sequenceId (remaining c)\<rparr>
                   else c))"

text \<open>
  The loop visits the entries that are in the buffer when it starts, in insertion order;
  deleting the entry being visited does not disturb the iteration.
\<close>

definition classify_remaining :: "bool \<Rightarrow> nat \<Rightarrow> buffer \<Rightarrow> classified" where
  "classify_remaining forceFlush now buf =
     foldl (classify_entry forceFlush now)
       \<lparr>staleTranscripts = [], recentTranscripts = [], forceFlushTranscripts = [],
        remaining = buf\<rparr> buf"

text \<open>
  The buffer part of \<^verbatim>\<open>processBufferedTranscripts(forceFlush)\<close>, up to
  \<open>allNewTranscripts\<close>; \<open>now\<close> is the value of \<^verbatim>\<open>Date.now()\<close> read after the contiguous
  run.
\<close>

record flushed =
  sortedTranscripts :: "Transcript list"
  sortedRecentTranscripts :: "Transcript list"
  sortedStaleTranscripts :: "Transcript list"
  sortedForceFlushTranscripts :: "Transcript list"
  buffer_after :: buffer
  lastProcessed_after :: int

definition flush :: "bool \<Rightarrow> nat \<Rightarrow> buffer \<Rightarrow> int \<Rightarrow> flushed" where
  "flush forceFlush now buf lastProcessed =
     (case sequential_loop (lastProcessed + 1) ([], buf, lastProcessed) of
        (srt, buf1, lastProcessed1) \<Rightarrow>
          (let c = classify_remaining forceFlush now buf1
           in \<lparr>sortedTranscripts = srt,
               sortedRecentTranscripts = sortTranscripts (recentTranscripts c),
               sortedStaleTranscripts = sortTranscripts (staleTranscripts c),
               sortedForceFlushTranscripts = sortTranscripts (forceFlushTranscripts c),
               buffer_after = remaining c,
               lastProcessed_after = lastProcessed1\<rparr>))"

definition allNewTranscripts :: "flushed \<Rightarrow> Transcript list" where
  "allNewTranscripts r =
     sortedTranscripts r @ sortedRecentTranscripts r @ sortedStaleTranscripts r
       @ sortedForceFlushTranscripts r"

subsection \<open>The provider's state\<close>

text \<open>
  The response of the summary service, as declared in
  \<^verbatim>\<open>src/frontend/src/services/summaryService.ts\<close>.
\<close>

datatype block_type = Bullet | Heading1 | Heading2 | Text

datatype SummaryBlock =
  SummaryBlock (block_id: string) (block_type: block_type) (content: string) (color: string)

datatype SummarySection = SummarySection (title: string) (blocks: "SummaryBlock list")

datatype MeetingNotes = MeetingNotes (notes_meeting_name: string) (sections: "SummarySection list")

datatype SummaryResponse =
  SummaryResponse (meeting_name: "string option") (people: SummarySection)
    (session_summary: SummarySection) (critical_deadlines: SummarySection)
    (key_items_decisions: SummarySection) (immediate_action_items: SummarySection)
    (next_steps: SummarySection) (meeting_notes: MeetingNotes)

text \<open>The requests sent to the summary service, in the order they are issued.\<close>

datatype api_call =
  StartIncrementalSummary string string string "string option"
| AddIncrementalSummaryChunk string string
| EndIncrementalSummary string

text \<open>
  How an awaited \<^verbatim>\<open>fetch\<close> settles: a response with \<^verbatim>\<open>ok\<close> set, a response without it
  whose body may carry a \<^verbatim>\<open>detail\<close>, or a rejected promise with the error's message.
\<close>

datatype fetch_outcome = Ok | NotOk "string option" | Rejected string

text \<open>
  The state of \<^verbatim>\<open>TranscriptProvider\<close>: its React state and refs, the variables of the
  buffering effect's closure (\<open>transcriptCounter\<close>, \<open>transcriptBuffer\<close>,
  \<open>lastProcessedSequence\<close>), and what it has sent out (\<open>issued\<close>: the summary-service
  calls, \<open>console_errors\<close>: the \<^verbatim>\<open>console.error\<close> lines, \<open>toasts\<close>: the error toasts).
  A state update and the ref written next to it are applied together.
\<close>

record pipeline =
  transcripts :: "Transcript list"
  meetingTitle :: string
  currentMeetingId :: "string option"
  currentMeetingIdRef :: "string option"
  incrementalSummary :: "SummaryResponse option"
  summaryStartedRef :: bool
  summarySessionActiveRef :: bool
  pendingChunksRef :: "string list"
  transcriptCounter :: nat
  transcriptBuffer :: buffer
  lastProcessedSequence :: int
  issued :: "api_call list"
  console_errors :: "string list"
  toasts :: "string list"

definition initial_pipeline :: pipeline where
  "initial_pipeline =
     \<lparr>transcripts = [], meetingTitle = ''+ New Call'', currentMeetingId = None,
      currentMeetingIdRef = None, incrementalSummary = None, summaryStartedRef = False,
      summarySessionActiveRef = False, pendingChunksRef = [], transcriptCounter = 0,
      transcriptBuffer = [], lastProcessedSequence = 0, issued = [], console_errors = [],
      toasts = []\<rparr>"

subsection \<open>Fragment arrival: the \<^verbatim>\<open>onTranscriptUpdate\<close> listener\<close>

text \<open>
  \<open>now\<close> is the \<^verbatim>\<open>Date.now()\<close> that goes into the new transcript's id. A sequence id
  already in the buffer is skipped. Saving to IndexedDB and re-arming the 10 ms timer
  are outside the state modelled here: the timer's firing is the separate event
  \<open>processBufferedTranscripts False\<close>.
\<close>

definition newBufferedTranscript :: "nat \<Rightarrow> nat \<Rightarrow> TranscriptUpdate \<Rightarrow> Transcript" where
  "newBufferedTranscript now counter update =
     \<lparr>t_id = nat_toString now @ ''-'' @ nat_toString counter,
      t_text = u_text update,
      t_timestamp = u_timestamp update,
      sequence_id = Some (u_sequence_id update),
      chunk_start_time = Some (u_chunk_start_time update),
      is_partial = u_is_partial update,
      confidence = Some (u_confidence update),
      audio_start_time = Some (u_audio_start_time update),
      audio_end_time = Some (u_audio_end_time update),
      duration = Some (u_duration update)\<rparr>"

definition onTranscriptUpdate :: "nat \<Rightarrow> TranscriptUpdate \<Rightarrow> pipeline \<Rightarrow> pipeline" where
  "onTranscriptUpdate now update s =
     (if Map_has (u_sequence_id update) (transcriptBuffer s) then s
      else s\<lparr>transcriptBuffer :=
                 Map_set (u_sequence_id update)
                   (newBufferedTranscript now (transcriptCounter s) update) (transcriptBuffer s),
              transcriptCounter := transcriptCounter s + 1\<rparr>)"

text \<open>A run of arrivals, each with its own clock reading, with no timer firing in between.\<close>

definition deliver :: "(nat \<times> TranscriptUpdate) list \<Rightarrow> pipeline \<Rightarrow> pipeline" where
  "deliver arrivals s = foldl (\<lambda>s a. onTranscriptUpdate (fst a) (snd a) s) s arrivals"

subsection \<open>Flushing: \<^verbatim>\<open>processBufferedTranscripts\<close>\<close>

text \<open>
  The block that sends the batch's text to the summary service. A meeting id that is
  \<^verbatim>\<open>null\<close> or empty is falsy and nothing is sent. Without an active session the text
  is queued; with one, \<^verbatim>\<open>addIncrementalSummaryChunk\<close> is called and not awaited.
\<close>

definition forward_chunk :: "string \<Rightarrow> pipeline \<Rightarrow> pipeline" where
  "forward_chunk textChunk s =
     (case currentMeetingIdRef s of
        None \<Rightarrow> s
      | Some activeMeetingId \<Rightarrow>
          if activeMeetingId = [] then s
          else if \<not> summarySessionActiveRef s
          then s\<lparr>pendingChunksRef := pendingChunksRef s @ [textChunk]\<rparr>
          else s\<lparr>issued := issued s @ [AddIncrementalSummaryChunk activeMeetingId textChunk]\<rparr>)"

definition processBufferedTranscripts :: "bool \<Rightarrow> nat \<Rightarrow> pipeline \<Rightarrow> pipeline" where
  "processBufferedTranscripts forceFlush now s =
     (let r = flush forceFlush now (transcriptBuffer s) (lastProcessedSequence s);
          s1 = s\<lparr>transcriptBuffer := buffer_after r,
                 lastProcessedSequence := lastProcessed_after r\<rparr>
      in if length (allNewTranscripts r) > 0
         then forward_chunk (join '' '' (map t_text (allNewTranscripts r)))
                (s1\<lparr>transcripts := merge (allNewTranscripts r) (transcripts s1)\<rparr>)
         else s1)"

text \<open>\<^verbatim>\<open>flushBuffer\<close>, through \<^verbatim>\<open>finalFlushRef\<close>: the forced flush.\<close>

definition flushBuffer :: "nat \<Rightarrow> pipeline \<Rightarrow> pipeline" where
  "flushBuffer now s = processBufferedTranscripts True now s"

definition updateIncrementalSummary :: "SummaryResponse \<Rightarrow> pipeline \<Rightarrow> pipeline" where
  "updateIncrementalSummary summary s = s\<lparr>incrementalSummary := Some summary\<rparr>"

text \<open>
  The callbacks on the promise of \<^verbatim>\<open>addIncrementalSummaryChunk\<close>. The first argument is
  the meeting id the request was sent with; the callbacks do not read it. A resolved
  promise is handled the same way for a chunk sent by \<^verbatim>\<open>processBufferedTranscripts\<close> and
  for the backlog sent by the recording-started listener; the two \<^verbatim>\<open>catch\<close> callbacks log
  different lines.
\<close>

definition addChunk_resolved :: "string \<Rightarrow> SummaryResponse \<Rightarrow> pipeline \<Rightarrow> pipeline" where
  "addChunk_resolved meetingId summary s = updateIncrementalSummary summary s"

definition addChunk_rejected :: "string \<Rightarrow> string \<Rightarrow> pipeline \<Rightarrow> pipeline" where
  "addChunk_rejected meetingId err s =
     s\<lparr>console_errors := console_errors s @ [''[Summary] Failed to update incremental summary: '' @ err]\<rparr>"

definition backlog_rejected :: "string \<Rightarrow> string \<Rightarrow> pipeline \<Rightarrow> pipeline" where
  "backlog_rejected meetingId err s =
     s\<lparr>console_errors := console_errors s @ [''[Summary] Flush failed: '' @ err]\<rparr>"

subsection \<open>The manual operations \<^verbatim>\<open>addTranscript\<close> and \<^verbatim>\<open>clearTranscripts\<close>\<close>

definition newManualTranscript :: "nat \<Rightarrow> TranscriptUpdate \<Rightarrow> Transcript" where
  "newManualTranscript now update =
     \<lparr>t_id = (if u_sequence_id update \<noteq> 0 then int_toString (u_sequence_id update)
              else nat_toString now),
      t_text = u_text update,
      t_timestamp = u_timestamp update,
      sequence_id = Some (if u_sequence_id update \<noteq> 0 then u_sequence_id update else 0),
      chunk_start_time = Some (u_chunk_start_time update),
      is_partial = u_is_partial update,
      confidence = Some (u_confidence update),
      audio_start_time = Some (u_audio_start_time update),
      audio_end_time = Some (u_audio_end_time update),
      duration = Some (u_duration update)\<rparr>"

text \<open>
  The updater of \<^verbatim>\<open>addTranscript\<close>: an existing entry with the same text and timestamp
  makes it return the list as it is; otherwise the new transcript is appended and the
  list sorted by sequence id.
\<close>

definition addTranscript_updater :: "nat \<Rightarrow> TranscriptUpdate \<Rightarrow> Transcript list \<Rightarrow> Transcript list" where
  "addTranscript_updater now update prev =
     (if list_ex (\<lambda>t. t_text t = u_text update \<and> t_timestamp t = u_timestamp update) prev
      then prev
      else sort_by compareSequence (prev @ [newManualTranscript now update]))"

definition addTranscript :: "nat \<Rightarrow> TranscriptUpdate \<Rightarrow> pipeline \<Rightarrow> pipeline" where
  "addTranscript now update s = s\<lparr>transcripts := addTranscript_updater now update (transcripts s)\<rparr>"

definition clearTranscripts :: "pipeline \<Rightarrow> pipeline" where
  "clearTranscripts s = s\<lparr>transcripts := [], incrementalSummary := None, summaryStartedRef := False\<rparr>"

subsection \<open>The recording-started listener\<close>

text \<open>
  The listener is an \<^verbatim>\<open>async\<close> function; between two of its \<^verbatim>\<open>await\<close>s other events
  run. It is embedded as the steps between its suspension points. The calls to
  IndexedDB, \<^verbatim>\<open>sessionStorage\<close> and the Tauri backend are outside the state modelled
  here; \<open>effectiveTitle\<close> and the model configuration are what they return.
\<close>

definition meetingId_of :: "nat \<Rightarrow> string" where
  "meetingId_of timestamp = ''meeting-'' @ nat_toString timestamp"

text \<open>Up to the first \<^verbatim>\<open>await\<close>: the guard against a second trigger, then the id is locked.\<close>

definition recordingStarted_lock :: "nat \<Rightarrow> pipeline \<Rightarrow> pipeline" where
  "recordingStarted_lock timestamp s =
     (if summaryStartedRef s then s
      else s\<lparr>currentMeetingIdRef := Some (meetingId_of timestamp),
              currentMeetingId := Some (meetingId_of timestamp),
              summaryStartedRef := True\<rparr>)"

text \<open>
  When reading the meeting name or saving the metadata fails, the outer \<^verbatim>\<open>catch\<close> logs and
  the listener ends there.
\<close>

definition recordingStarted_metadata_failed :: "string \<Rightarrow> pipeline \<Rightarrow> pipeline" where
  "recordingStarted_metadata_failed err s =
     s\<lparr>console_errors := console_errors s
          @ [''Failed to initialize meeting in IndexedDB: '' @ err]\<rparr>"

text \<open>After the metadata is saved: the title is set and the summary session initialised.\<close>

definition recordingStarted_session :: "string \<Rightarrow> pipeline \<Rightarrow> pipeline" where
  "recordingStarted_session effectiveTitle s =
     s\<lparr>meetingTitle := effectiveTitle, summarySessionActiveRef := False, pendingChunksRef := []\<rparr>"

text \<open>
  When reading the configuration fails, the inner \<^verbatim>\<open>catch\<close> logs and shows a toast, and no
  start request is sent.
\<close>

definition recordingStarted_config_failed :: "string \<Rightarrow> pipeline \<Rightarrow> pipeline" where
  "recordingStarted_config_failed err s =
     s\<lparr>console_errors := console_errors s @ [''[Summary] Init failed: '' @ err],
       toasts := toasts s @ [err]\<rparr>"

text \<open>After the configuration is read: the start request is sent.\<close>

definition recordingStarted_request ::
  "string \<Rightarrow> string \<Rightarrow> string \<Rightarrow> string option \<Rightarrow> pipeline \<Rightarrow> pipeline" where
  "recordingStarted_request meetingId provider model apiKey s =
     s\<lparr>issued := issued s @ [StartIncrementalSummary meetingId provider model apiKey]\<rparr>"

text \<open>
  What the body of a \<^verbatim>\<open>try\<close> block throws once the request has settled: \<open>Inl\<close> is the
  message of the error thrown, \<open>Inr\<close> is normal completion.
\<close>

definition response_check :: "string \<Rightarrow> fetch_outcome \<Rightarrow> string + unit" where
  "response_check fallback outcome =
     (case outcome of
        Ok \<Rightarrow> Inr ()
      | NotOk detail \<Rightarrow>
          Inl (case detail of None \<Rightarrow> fallback | Some d \<Rightarrow> if d = [] then fallback else d)
      | Rejected msg \<Rightarrow> Inl msg)"

text \<open>
  When the start request settles. On success the session is marked active and a
  non-empty backlog is joined and sent as one chunk; on failure the \<^verbatim>\<open>catch\<close> block logs
  and shows a toast, and \<open>summaryStartedRef\<close> stays set.
\<close>

definition recordingStarted_settled :: "string \<Rightarrow> fetch_outcome \<Rightarrow> pipeline \<Rightarrow> pipeline" where
  "recordingStarted_settled meetingId outcome s =
     (case response_check ''Failed to start summary session'' outcome of
        Inl err \<Rightarrow>
          s\<lparr>console_errors := console_errors s @ [''[Summary] Init failed: '' @ err],
            toasts := toasts s @ [err]\<rparr>
      | Inr _ \<Rightarrow>
          (let s1 = s\<lparr>summarySessionActiveRef := True\<rparr>
           in if length (pendingChunksRef s1) > 0
              then s1\<lparr>pendingChunksRef := [],
                      issued := issued s1
                        @ [AddIncrementalSummaryChunk meetingId (join '' '' (pendingChunksRef s1))]\<rparr>
              else s1))"

subsection \<open>The recording-stopped listener\<close>

text \<open>Up to the \<^verbatim>\<open>await\<close> of \<^verbatim>\<open>endIncrementalSummary\<close>: without a meeting id nothing is sent.\<close>

definition recordingStopped_request :: "pipeline \<Rightarrow> pipeline" where
  "recordingStopped_request s =
     (case currentMeetingIdRef s of
        None \<Rightarrow> s
      | Some meetingId \<Rightarrow>
          if meetingId = [] then s
          else s\<lparr>issued := issued s @ [EndIncrementalSummary meetingId]\<rparr>)"

text \<open>
  When the end request settles: a failure is caught and logged, and the listener goes on
  to the metadata update in IndexedDB, whose own failure (\<open>metadata_error\<close>) the outer
  \<^verbatim>\<open>catch\<close> logs. Nothing is thrown out of the listener.
\<close>

definition recordingStopped_settled :: "fetch_outcome \<Rightarrow> string option \<Rightarrow> pipeline \<Rightarrow> pipeline" where
  "recordingStopped_settled outcome metadata_error s =
     (let s1 = (case response_check ''Failed to end summary session'' outcome of
                  Inl err \<Rightarrow>
                    s\<lparr>console_errors := console_errors s @ [''[Summary] End session failed: '' @ err]\<rparr>
                | Inr _ \<Rightarrow> s)
      in case metadata_error of
           None \<Rightarrow> s1
         | Some err \<Rightarrow>
             s1\<lparr>console_errors := console_errors s1
                  @ [''Failed to update meeting metadata on stop: '' @ err]\<rparr>)"

subsection \<open>Facts about the comparator sort\<close>

lemma mset_insert_by: "mset (insert_by cmp x ys) = add_mset x (mset ys)"
  by (induction ys) simp_all

lemma mset_sort_by: "mset (sort_by cmp xs) = mset xs"
  unfolding sort_by_def by (induction xs) (simp_all add: mset_insert_by)

lemma set_sort_by: "set (sort_by cmp xs) = set xs"
  using mset_sort_by [of cmp xs] by (metis set_mset_mset)

lemma set_map_sort_by: "set (map f (sort_by cmp xs)) = set (map f xs)"
  by (simp add: set_sort_by)


subsection \<open>Idempotence of the merge\<close>

lemma uniqueNewTranscripts_covered:
  assumes "set (existingSequenceIds prev) \<subseteq> set (existingSequenceIds prev')"
    and "sequence_id ` set (uniqueNewTranscripts b prev) \<subseteq> set (existingSequenceIds prev')"
  shows "uniqueNewTranscripts b prev' = []"
proof -
  have "\<not> (sequence_id t \<noteq> None \<and> sequence_id t \<notin> set (existingSequenceIds prev'))"
    if "t \<in> set b" for t
  proof (cases "sequence_id t \<noteq> None \<and> sequence_id t \<notin> set (existingSequenceIds prev)")
    case True
    with that have "t \<in> set (uniqueNewTranscripts b prev)"
      by (simp add: uniqueNewTranscripts_def)
    with assms(2) show ?thesis by blast
  next
    case False
    with assms(1) show ?thesis by blast
  qed
  then show ?thesis
    unfolding uniqueNewTranscripts_def by (simp add: filter_empty_conv)
qed

lemma existingSequenceIds_sorted_append:
  "set (existingSequenceIds (sort_by cmp (prev @ us)))
     = set (existingSequenceIds prev) \<union> (sequence_id ` set us - {None})"
  unfolding existingSequenceIds_def by (auto simp: set_sort_by)

lemma uniqueNewTranscripts_defined:
  "t \<in> set (uniqueNewTranscripts b prev) \<Longrightarrow> sequence_id t \<noteq> None"
  by (simp add: uniqueNewTranscripts_def)

lemma merge_absorbs: "uniqueNewTranscripts b (merge b prev) = []"
proof (cases "uniqueNewTranscripts b prev = []")
  case True
  then show ?thesis by (simp add: merge_def)
next
  case False
  let ?u = "uniqueNewTranscripts b prev"
  have m: "merge b prev = sort_by compareTranscripts (prev @ ?u)"
    using False by (simp add: merge_def)
  have "sequence_id ` set ?u \<subseteq> sequence_id ` set ?u - {None}"
    by (auto dest: uniqueNewTranscripts_defined)
  then show ?thesis
    unfolding m
    by (intro uniqueNewTranscripts_covered [of prev])
       (auto simp: existingSequenceIds_sorted_append)
qed

text \<open>
  C8. Merging a batch a second time changes nothing: \<open>merge B (merge B L) = merge B L\<close>
  for every batch \<open>B\<close> and every transcript list \<open>L\<close>, for the updater alone and for the
  updater behind its non-empty-batch test.
\<close>

theorem merge_idempotent:
  "merge B (merge B L) = merge B L \<and> merge_batch B (merge_batch B L) = merge_batch B L"
proof -
  have "merge B (merge B L) = merge B L"
    using merge_absorbs [of B L] by (simp add: merge_def [of B "merge B L"])
  then show ?thesis
    by (simp add: merge_batch_def)
qed

subsection \<open>The creation time written into a buffered transcript's id is read back\<close>

lemma of_char_digit_char: "d < 10 \<Longrightarrow> (of_char (digit_char d) :: nat) = 48 + d"
  by (simp add: digit_char_def)

lemma is_digit_digit_char: "d < 10 \<Longrightarrow> is_digit (digit_char d)"
  by (simp add: is_digit_def of_char_digit_char)

lemma digit_val_digit_char: "d < 10 \<Longrightarrow> digit_val (digit_char d) = d"
  by (simp add: digit_val_def of_char_digit_char)

lemma nat_toString_digits: "c \<in> set (nat_toString n) \<Longrightarrow> is_digit c"
proof (induction n rule: nat_toString.induct)
  case (1 n)
  show ?case
  proof (cases "n < 10")
    case True
    with "1.prems" show ?thesis
      by (simp add: nat_toString.simps [of n] is_digit_digit_char)
  next
    case False
    with "1.prems" "1.IH" show ?thesis
      by (auto simp: nat_toString.simps [of n] is_digit_digit_char)
  qed
qed

lemma nat_toString_nonempty: "nat_toString n \<noteq> []"
  by (simp add: nat_toString.simps [of n])

lemma nat_toString_value: "foldl (\<lambda>a c. 10 * a + digit_val c) 0 (nat_toString n) = n"
proof (induction n rule: nat_toString.induct)
  case (1 n)
  show ?case
  proof (cases "n < 10")
    case True
    then show ?thesis
      by (simp add: nat_toString.simps [of n] digit_val_digit_char)
  next
    case False
    with "1.IH" show ?thesis
      by (simp add: nat_toString.simps [of n] digit_val_digit_char)
  qed
qed

lemma is_digit_facts:
  assumes "is_digit c"
  shows "\<not> is_space c" "c \<noteq> CHR ''-''" "c \<noteq> CHR ''+''" "c \<noteq> CHR ''x''" "c \<noteq> CHR ''X''"
  using assms by (auto simp: is_digit_def is_space_def)

lemma read_unsigned_digits:
  assumes "ds \<noteq> []" and "\<And>c. c \<in> set ds \<Longrightarrow> is_digit c"
  shows "read_unsigned ds = Some (foldl (\<lambda>a c. 10 * a + digit_val c) 0 ds)"
proof -
  have "take 2 ds \<noteq> ''0x'' \<and> take 2 ds \<noteq> ''0X''"
  proof (cases ds)
    case Nil
    then show ?thesis by simp
  next
    case (Cons c cs)
    show ?thesis
    proof (cases cs)
      case Nil
      with Cons show ?thesis by simp
    next
      case (Cons d es)
      with \<open>ds = c # cs\<close> assms(2) [of d] show ?thesis
        by (auto simp: numeral_2_eq_2 dest: is_digit_facts)
    qed
  qed
  moreover have "takeWhile is_digit ds = ds"
    using assms(2) by (simp add: takeWhile_eq_all_conv)
  ultimately show ?thesis
    unfolding read_unsigned_def read_digits_def Let_def
    using assms(1) by (simp only: if_False simp_thms)
qed

lemma parseInt_digits:
  assumes "ds \<noteq> []" and "\<And>c. c \<in> set ds \<Longrightarrow> is_digit c"
  shows "parseInt ds = Some (int (foldl (\<lambda>a c. 10 * a + digit_val c) 0 ds))"
proof -
  obtain c cs where ds: "ds = c # cs"
    using assms(1) by (cases ds) auto
  then have c: "is_digit c"
    using assms(2) by simp
  have "dropWhile is_space ds = ds"
    using ds is_digit_facts(1) [OF c] by simp
  then show ?thesis
    using ds is_digit_facts [OF c] read_unsigned_digits [OF assms]
    by (simp add: parseInt_def)
qed

lemma split_dash_first_stamp:
  "split_dash_first (nat_toString n @ CHR ''-'' # rest) = nat_toString n"
proof -
  have "takeWhile (\<lambda>c. c \<noteq> CHR ''-'') (nat_toString n @ CHR ''-'' # rest)
          = nat_toString n @ takeWhile (\<lambda>c. c \<noteq> CHR ''-'') (CHR ''-'' # rest)"
    by (rule takeWhile_append2) (auto dest: nat_toString_digits is_digit_facts)
  then show ?thesis
    by (simp add: split_dash_first_def)
qed

lemma parseInt_stamp:
  "parseInt (split_dash_first (nat_toString n @ CHR ''-'' # rest)) = Some (int n)"
  unfolding split_dash_first_stamp
  using parseInt_digits [of "nat_toString n"]
  by (simp add: nat_toString_nonempty nat_toString_digits nat_toString_value)

lemma transcriptAge_new:
  "transcriptAge now (newBufferedTranscript created counter update) = Some (int now - int created)"
  by (simp add: transcriptAge_def newBufferedTranscript_def parseInt_stamp)

subsection \<open>What a flush removes from the buffer\<close>

text \<open>The buffer as the contiguous run leaves it, before the remaining entries are classified.\<close>

definition after_run :: "buffer \<Rightarrow> int \<Rightarrow> buffer" where
  "after_run buf lastProcessed = fst (snd (sequential_loop (lastProcessed + 1) ([], buf, lastProcessed)))"

text \<open>
  The two age tests of the classification loop, and the condition that the creation time
  in a transcript's id is not later than \<open>now\<close>.
\<close>

definition is_stale :: "nat \<Rightarrow> Transcript \<Rightarrow> bool" where
  "is_stale now t = (case transcriptAge now t of None \<Rightarrow> False | Some age \<Rightarrow> age > staleThreshold)"

definition is_recent :: "nat \<Rightarrow> Transcript \<Rightarrow> bool" where
  "is_recent now t =
     (case transcriptAge now t of None \<Rightarrow> False
      | Some age \<Rightarrow> age \<le> staleThreshold \<and> age \<ge> recentThreshold)"

definition arrived_by :: "nat \<Rightarrow> Transcript \<Rightarrow> bool" where
  "arrived_by now t = (case transcriptAge now t of None \<Rightarrow> False | Some age \<Rightarrow> age \<ge> 0)"

lemma forward_chunk_buffer [simp]:
  "transcriptBuffer (forward_chunk c s) = transcriptBuffer s"
  "lastProcessedSequence (forward_chunk c s) = lastProcessedSequence s"
  "transcripts (forward_chunk c s) = transcripts s"
  by (simp_all add: forward_chunk_def split: option.splits)

lemma processBufferedTranscripts_buffer:
  "transcriptBuffer (processBufferedTranscripts f now s)
     = buffer_after (flush f now (transcriptBuffer s) (lastProcessedSequence s))"
  by (simp add: processBufferedTranscripts_def Let_def)

lemma processBufferedTranscripts_last:
  "lastProcessedSequence (processBufferedTranscripts f now s)
     = lastProcessed_after (flush f now (transcriptBuffer s) (lastProcessedSequence s))"
  by (simp add: processBufferedTranscripts_def Let_def)

lemma processBufferedTranscripts_transcripts:
  "transcripts (processBufferedTranscripts f now s)
     = merge_batch (allNewTranscripts (flush f now (transcriptBuffer s) (lastProcessedSequence s)))
         (transcripts s)"
  by (simp add: processBufferedTranscripts_def Let_def merge_batch_def)

lemma flush_fields:
  "buffer_after (flush f now buf l) = remaining (classify_remaining f now (after_run buf l))"
  "sortedStaleTranscripts (flush f now buf l)
     = sortTranscripts (staleTranscripts (classify_remaining f now (after_run buf l)))"
  "sortedRecentTranscripts (flush f now buf l)
     = sortTranscripts (recentTranscripts (classify_remaining f now (after_run buf l)))"
  "sortedForceFlushTranscripts (flush f now buf l)
     = sortTranscripts (forceFlushTranscripts (classify_remaining f now (after_run buf l)))"
  "sortedTranscripts (flush f now buf l) = fst (sequential_loop (l + 1) ([], buf, l))"
  "lastProcessed_after (flush f now buf l) = snd (snd (sequential_loop (l + 1) ([], buf, l)))"
  by (simp_all add: flush_def after_run_def Let_def split: prod.splits)

lemma classify_entry_forced:
  "remaining (classify_entry True now c e) = Map_delete (fst e) (remaining c)"
  "forceFlushTranscripts (classify_entry True now c e) = forceFlushTranscripts c @ [snd e]"
  "staleTranscripts (classify_entry True now c e) = staleTranscripts c"
  "recentTranscripts (classify_entry True now c e) = recentTranscripts c"
  by (simp_all add: classify_entry_def Let_def)

lemma remaining_forced:
  "remaining (foldl (classify_entry True now) c xs)
     = filter (\<lambda>p. fst p \<notin> fst ` set xs) (remaining c)"
proof (induction xs arbitrary: c)
  case Nil
  show ?case by simp
next
  case (Cons e xs)
  have "remaining (foldl (classify_entry True now) c (e # xs))
          = filter (\<lambda>p. fst p \<notin> fst ` set xs) (Map_delete (fst e) (remaining c))"
    by (simp only: foldl_Cons Cons.IH classify_entry_forced)
  then show ?case
    by (simp add: Map_delete_def conj_commute)
qed

lemma forced_forced:
  "forceFlushTranscripts (foldl (classify_entry True now) c xs)
     = forceFlushTranscripts c @ map snd xs"
  by (induction xs arbitrary: c) (simp_all add: classify_entry_forced)

lemma forced_others:
  "staleTranscripts (foldl (classify_entry True now) c xs) = staleTranscripts c"
  "recentTranscripts (foldl (classify_entry True now) c xs) = recentTranscripts c"
  by (induction xs arbitrary: c) (simp_all add: classify_entry_forced)

lemma classify_remaining_forced:
  "remaining (classify_remaining True now buf) = []"
  "forceFlushTranscripts (classify_remaining True now buf) = map snd buf"
  "staleTranscripts (classify_remaining True now buf) = []"
  "recentTranscripts (classify_remaining True now buf) = []"
  by (simp_all add: classify_remaining_def remaining_forced forced_forced forced_others)

lemma classify_entry_aged:
  "classify_entry False now c e =
     (if is_stale now (snd e)
      then c\<lparr>staleTranscripts := staleTranscripts c @ [snd e],
             remaining := Map_delete (fst e) (remaining c)\<rparr>
      else if is_recent now (snd e)
      then c\<lparr>recentTranscripts := recentTranscripts c @ [snd e],
             remaining := Map_delete (fst e) (remaining c)\<rparr>
      else c)"
  by (simp add: classify_entry_def is_stale_def is_recent_def Let_def split: option.splits)

lemma aged_stale:
  "staleTranscripts (foldl (classify_entry False now) c xs)
     = staleTranscripts c @ map snd (filter (\<lambda>e. is_stale now (snd e)) xs)"
  by (induction xs arbitrary: c) (simp_all add: classify_entry_aged)

lemma aged_recent:
  "recentTranscripts (foldl (classify_entry False now) c xs)
     = recentTranscripts c
         @ map snd (filter (\<lambda>e. \<not> is_stale now (snd e) \<and> is_recent now (snd e)) xs)"
  by (induction xs arbitrary: c) (simp_all add: classify_entry_aged)

lemma aged_forced:
  "forceFlushTranscripts (foldl (classify_entry False now) c xs) = forceFlushTranscripts c"
  by (induction xs arbitrary: c) (simp_all add: classify_entry_aged)

lemma classify_entry_aged_remaining:
  "remaining (classify_entry False now c e)
     = (if is_stale now (snd e) \<or> is_recent now (snd e)
        then Map_delete (fst e) (remaining c) else remaining c)"
  by (simp add: classify_entry_aged)

lemma aged_remaining:
  "remaining (foldl (classify_entry False now) c xs)
     = filter (\<lambda>p. fst p \<notin> fst ` {e \<in> set xs. is_stale now (snd e) \<or> is_recent now (snd e)})
         (remaining c)"
proof (induction xs arbitrary: c)
  case Nil
  show ?case by simp
next
  case (Cons e xs)
  let ?out = "\<lambda>e. is_stale now (snd e) \<or> is_recent now (snd e)"
  have step: "remaining (foldl (classify_entry False now) c (e # xs))
          = filter (\<lambda>p. fst p \<notin> fst ` {e \<in> set xs. ?out e})
              (if ?out e then Map_delete (fst e) (remaining c) else remaining c)"
    by (simp only: foldl_Cons Cons.IH classify_entry_aged_remaining)
  show ?case
  proof (cases "?out e")
    case True
    then have "{x \<in> set (e # xs). ?out x} = insert e {x \<in> set xs. ?out x}"
      by auto
    with True step show ?thesis
      by (simp add: Map_delete_def conj_commute)
  next
    case False
    then have "{x \<in> set (e # xs). ?out x} = {x \<in> set xs. ?out x}"
      by auto
    with False step show ?thesis
      by simp
  qed
qed

lemma arrived_by_cases: "arrived_by now t \<Longrightarrow> is_stale now t \<or> is_recent now t"
  by (auto simp: arrived_by_def is_stale_def is_recent_def recentThreshold_def
      split: option.splits)

lemma classify_remaining_arrived:
  assumes "list_all (\<lambda>e. arrived_by now (snd e)) buf"
  shows "remaining (classify_remaining False now buf) = []"
proof -
  have "{e \<in> set buf. is_stale now (snd e) \<or> is_recent now (snd e)} = set buf"
    using assms by (auto simp: list_all_iff dest: arrived_by_cases)
  then show ?thesis
    by (simp add: classify_remaining_def aged_remaining)
qed

lemma sequential_loop_subset:
  "set (fst (snd (sequential_loop n x))) \<subseteq> set (fst (snd x))"
proof (induction n x rule: sequential_loop.induct)
  case (1 n srt buf l)
  show ?case
  proof (cases "Map_get n buf")
    case None
    then show ?thesis
      by (simp add: sequential_loop.simps [of n srt buf l])
  next
    case (Some t)
    from "1.IH" [OF Some] have "set (fst (snd (sequential_loop n (srt, buf, l))))
        \<subseteq> set (Map_delete n buf)"
      using Some by (simp add: sequential_loop.simps [of n srt buf l])
    then show ?thesis
      by (auto simp: Map_delete_def)
  qed
qed

lemma after_run_subset: "set (after_run buf l) \<subseteq> set buf"
  using sequential_loop_subset [of "l + 1" "([], buf, l)"] by (simp add: after_run_def)

lemma list_all_Map_set: "P (k, v) \<Longrightarrow> list_all P buf \<Longrightarrow> list_all P (Map_set k v buf)"
  by (induction buf) auto

lemma arrived_onTranscriptUpdate:
  assumes "list_all (\<lambda>e. arrived_by now (snd e)) (transcriptBuffer s)" and "t \<le> now"
  shows "list_all (\<lambda>e. arrived_by now (snd e)) (transcriptBuffer (onTranscriptUpdate t u s))"
proof -
  have "arrived_by now (newBufferedTranscript t (transcriptCounter s) u)"
    using assms(2) by (simp add: arrived_by_def transcriptAge_new)
  with assms(1) show ?thesis
    by (simp add: onTranscriptUpdate_def list_all_Map_set)
qed

lemma arrived_deliver:
  assumes "list_all (\<lambda>e. arrived_by now (snd e)) (transcriptBuffer s)"
    and "list_all (\<lambda>a. fst a \<le> now) arrivals"
  shows "list_all (\<lambda>e. arrived_by now (snd e)) (transcriptBuffer (deliver arrivals s))"
  using assms unfolding deliver_def
proof (induction arrivals arbitrary: s)
  case Nil
  then show ?case by simp
next
  case (Cons a arrivals)
  then show ?case
    by (simp add: arrived_onTranscriptUpdate)
qed

lemma timer_flush_empties:
  assumes "list_all (\<lambda>e. arrived_by now (snd e)) (transcriptBuffer s)"
    and "list_all (\<lambda>a. fst a \<le> now) arrivals"
  shows "transcriptBuffer (processBufferedTranscripts False now (deliver arrivals s)) = []"
proof -
  let ?s = "deliver arrivals s"
  have "list_all (\<lambda>e. arrived_by now (snd e)) (transcriptBuffer ?s)"
    using assms by (rule arrived_deliver)
  then have "list_all (\<lambda>e. arrived_by now (snd e))
      (after_run (transcriptBuffer ?s) (lastProcessedSequence ?s))"
    using after_run_subset [of "transcriptBuffer ?s" "lastProcessedSequence ?s"]
    by (auto simp: list_all_iff)
  then show ?thesis
    by (simp add: processBufferedTranscripts_buffer flush_fields classify_remaining_arrived)
qed

lemma timer_flush_removes:
  assumes "arrived_by now t"
  shows "(k, t) \<notin> set (buffer_after (flush False now buf l))"
proof
  assume "(k, t) \<in> set (buffer_after (flush False now buf l))"
  then have "(k, t) \<in> set (after_run buf l)"
    and "k \<notin> fst ` {e \<in> set (after_run buf l). is_stale now (snd e) \<or> is_recent now (snd e)}"
    by (simp_all add: flush_fields classify_remaining_def aged_remaining)
  with arrived_by_cases [OF assms] show False
    by force
qed

subsection \<open>Classification by age\<close>

text \<open>A fragment with sequence id 5 that arrived at time 100, used to run the flush on.\<close>

definition update5 :: TranscriptUpdate where
  "update5 =
     \<lparr>u_text = ''five'', u_timestamp = ''00:00:09'', u_sequence_id = 5,
      u_chunk_start_time = 9, u_is_partial = False, u_confidence = 1,
      u_audio_start_time = 9, u_audio_end_time = 10, u_duration = 1\<rparr>"

definition fragment5 :: Transcript where
  "fragment5 = newBufferedTranscript 100 0 update5"

lemma sortTranscripts_set [simp]: "set (sortTranscripts ts) = set ts"
  by (simp add: sortTranscripts_def set_sort_by)

lemma sortTranscripts_single [simp]: "sortTranscripts [t] = [t]" "sortTranscripts [] = []"
  by (simp_all add: sortTranscripts_def sort_by_def)

lemma classify_remaining_aged:
  "staleTranscripts (classify_remaining False now buf)
     = map snd (filter (\<lambda>e. is_stale now (snd e)) buf)"
  "recentTranscripts (classify_remaining False now buf)
     = map snd (filter (\<lambda>e. \<not> is_stale now (snd e) \<and> is_recent now (snd e)) buf)"
  "forceFlushTranscripts (classify_remaining False now buf) = []"
  by (simp_all add: classify_remaining_def aged_stale aged_recent aged_forced)

lemma lone_fragment_run:
  "sequential_loop (0 + 1) ([], [(5, t)], 0) = ([], [(5, t)], 0)"
  by (simp add: sequential_loop.simps [of _ "[]" "[(5, t)]" 0] Map_get_def)

text \<open>
  C6, as the code has it. In a timer flush a fragment left over by the contiguous run
  is classified stale when its age is strictly greater than the 100 ms threshold, and
  then it is not classified recent; with an age from 0 up to and including 100 ms it is
  classified recent and not stale. In particular, when sequence id 5 alone is
  buffered with an age above 100 ms, the flush returns that one fragment, as stale, and
  \<open>lastProcessedSequence\<close> stays 0.
\<close>

theorem stale_when_older_than_threshold:
  "staleThreshold = 100
   \<and> (\<forall>k t age. (k, t) \<in> set (after_run buf lastProcessed) \<and> transcriptAge now t = Some age
          \<and> age > staleThreshold
        \<longrightarrow> t \<in> set (sortedStaleTranscripts (flush False now buf lastProcessed))
          \<and> t \<notin> set (sortedRecentTranscripts (flush False now buf lastProcessed)))
   \<and> (\<forall>t age. transcriptAge now t = Some age \<and> age > staleThreshold
        \<longrightarrow> allNewTranscripts (flush False now [(5, t)] 0) = [t]
          \<and> sortedStaleTranscripts (flush False now [(5, t)] 0) = [t]
          \<and> buffer_after (flush False now [(5, t)] 0) = []
          \<and> lastProcessed_after (flush False now [(5, t)] 0) = 0)
   \<and> (\<forall>k t age. (k, t) \<in> set (after_run buf lastProcessed) \<and> transcriptAge now t = Some age
          \<and> recentThreshold \<le> age \<and> age \<le> staleThreshold
        \<longrightarrow> t \<in> set (sortedRecentTranscripts (flush False now buf lastProcessed))
          \<and> t \<notin> set (sortedStaleTranscripts (flush False now buf lastProcessed)))"
proof (intro conjI allI impI)
  show "staleThreshold = 100"
    by (simp add: staleThreshold_def)
next
  fix k t age
  assume h: "(k, t) \<in> set (after_run buf lastProcessed) \<and> transcriptAge now t = Some age
    \<and> age > staleThreshold"
  then have st: "is_stale now t"
    by (simp add: is_stale_def)
  with h show "t \<in> set (sortedStaleTranscripts (flush False now buf lastProcessed))"
    by (force simp: flush_fields classify_remaining_aged)
  from st show "t \<notin> set (sortedRecentTranscripts (flush False now buf lastProcessed))"
    by (auto simp: flush_fields classify_remaining_aged)
next
  fix t age
  assume "transcriptAge now t = Some age \<and> age > staleThreshold"
  then have st: "is_stale now t"
    by (simp add: is_stale_def)
  have run: "after_run [(5, t)] 0 = [(5, t)]"
    using lone_fragment_run [of t] by (simp add: after_run_def)
  from st run show "sortedStaleTranscripts (flush False now [(5, t)] 0) = [t]"
    by (simp add: flush_fields classify_remaining_aged)
  from st run show "allNewTranscripts (flush False now [(5, t)] 0) = [t]"
    using lone_fragment_run [of t]
    by (simp add: allNewTranscripts_def flush_fields classify_remaining_aged)
  from st run show "buffer_after (flush False now [(5, t)] 0) = []"
    by (simp add: flush_fields classify_remaining_def classify_entry_aged_remaining
        Map_delete_def)
  show "lastProcessed_after (flush False now [(5, t)] 0) = 0"
    using lone_fragment_run [of t] by (simp add: flush_fields)
next
  fix k t age
  assume h: "(k, t) \<in> set (after_run buf lastProcessed) \<and> transcriptAge now t = Some age
    \<and> recentThreshold \<le> age \<and> age \<le> staleThreshold"
  then have re: "\<not> is_stale now t" "is_recent now t"
    by (simp_all add: is_stale_def is_recent_def)
  with h show "t \<in> set (sortedRecentTranscripts (flush False now buf lastProcessed))"
    by (force simp: flush_fields classify_remaining_aged)
  from re show "t \<notin> set (sortedStaleTranscripts (flush False now buf lastProcessed))"
    by (auto simp: flush_fields classify_remaining_aged)
qed

theorem stale_when_older_than_threshold_witness:
  "(5, fragment5) \<in> set (after_run [(5, fragment5)] 0)
   \<and> transcriptAge 250 fragment5 = Some 150 \<and> (150::int) > staleThreshold
   \<and> fragment5 \<in> set (sortedStaleTranscripts (flush False 250 [(5, fragment5)] 0))
   \<and> fragment5 \<notin> set (sortedRecentTranscripts (flush False 250 [(5, fragment5)] 0))
   \<and> allNewTranscripts (flush False 250 [(5, fragment5)] 0) = [fragment5]
   \<and> lastProcessed_after (flush False 250 [(5, fragment5)] 0) = 0"
proof -
  have p1: "(5, fragment5) \<in> set (after_run [(5, fragment5)] 0)"
    using lone_fragment_run [of fragment5] by (simp add: after_run_def)
  have p2: "transcriptAge 250 fragment5 = Some 150"
    by (simp add: fragment5_def transcriptAge_new)
  have p3: "(150::int) > staleThreshold"
    by (simp add: staleThreshold_def)
  note inst = stale_when_older_than_threshold [of "[(5, fragment5)]" 0 250]
  from inst have a: "fragment5 \<in> set (sortedStaleTranscripts (flush False 250 [(5, fragment5)] 0))
      \<and> fragment5 \<notin> set (sortedRecentTranscripts (flush False 250 [(5, fragment5)] 0))"
    using p1 p2 p3 by blast
  from inst have b: "allNewTranscripts (flush False 250 [(5, fragment5)] 0) = [fragment5]
      \<and> lastProcessed_after (flush False 250 [(5, fragment5)] 0) = 0"
    using p2 p3 by blast
  from p1 p2 p3 a b show ?thesis
    by blast
qed

text \<open>
  C6 read with \<open>\<ge>\<close> fails at the threshold itself: at age exactly 100 ms the first
  test \<open>age > staleThreshold\<close> is false and the fragment is classified recent.
\<close>

theorem stale_at_threshold_counterexample:
  "(5, fragment5) \<in> set (after_run [(5, fragment5)] 0)
   \<and> transcriptAge 200 fragment5 = Some 100 \<and> (100::int) \<ge> staleThreshold
   \<and> fragment5 \<notin> set (sortedStaleTranscripts (flush False 200 [(5, fragment5)] 0))
   \<and> sortedRecentTranscripts (flush False 200 [(5, fragment5)] 0) = [fragment5]"
proof -
  have age: "transcriptAge 200 fragment5 = Some 100"
    by (simp add: fragment5_def transcriptAge_new)
  then have "\<not> is_stale 200 fragment5" "is_recent 200 fragment5"
    by (simp_all add: is_stale_def is_recent_def staleThreshold_def recentThreshold_def)
  moreover have "after_run [(5, fragment5)] 0 = [(5, fragment5)]"
    using lone_fragment_run [of fragment5] by (simp add: after_run_def)
  ultimately show ?thesis
    using age by (simp add: flush_fields classify_remaining_aged staleThreshold_def)
qed

subsection \<open>The comparator sort yields a sorted list\<close>









subsection \<open>Every buffered fragment is in the batch or still in the buffer\<close>

text \<open>
  What a \<^verbatim>\<open>Map\<close> filled by \<open>onTranscriptUpdate\<close> satisfies: keys are unique and each
  value carries its key as sequence id.
\<close>

definition buffer_ok :: "buffer \<Rightarrow> bool" where
  "buffer_ok buf =
     (distinct (map fst buf) \<and> list_all (\<lambda>e. sequence_id (snd e) = Some (fst e)) buf)"


lemma keys_Map_set: "fst ` set (Map_set k v buf) = insert k (fst ` set buf)"
  by (induction buf) auto

lemma distinct_Map_set: "distinct (map fst buf) \<Longrightarrow> distinct (map fst (Map_set k v buf))"
  by (induction buf) (auto simp: keys_Map_set)

lemma buffer_ok_Map_set:
  "buffer_ok buf \<Longrightarrow> sequence_id v = Some k \<Longrightarrow> buffer_ok (Map_set k v buf)"
  by (simp add: buffer_ok_def distinct_Map_set list_all_Map_set)

lemma buffer_ok_Map_delete: "buffer_ok buf \<Longrightarrow> buffer_ok (Map_delete k buf)"
  by (simp add: buffer_ok_def Map_delete_def distinct_map_filter list_all_iff)

lemma buffer_ok_onTranscriptUpdate:
  "buffer_ok (transcriptBuffer s) \<Longrightarrow> buffer_ok (transcriptBuffer (onTranscriptUpdate t u s))"
  by (simp add: onTranscriptUpdate_def buffer_ok_Map_set newBufferedTranscript_def)


lemma onTranscriptUpdate_others [simp]:
  "transcripts (onTranscriptUpdate t u s) = transcripts s"
  "lastProcessedSequence (onTranscriptUpdate t u s) = lastProcessedSequence s"
  by (simp_all add: onTranscriptUpdate_def)

lemma deliver_others [simp]:
  "transcripts (deliver arrivals s) = transcripts s"
  "lastProcessedSequence (deliver arrivals s) = lastProcessedSequence s"
  unfolding deliver_def by (induction arrivals arbitrary: s) simp_all

lemma buffer_ok_deliver:
  "buffer_ok (transcriptBuffer s) \<Longrightarrow> buffer_ok (transcriptBuffer (deliver arrivals s))"
  unfolding deliver_def
  by (induction arrivals arbitrary: s) (simp_all add: buffer_ok_onTranscriptUpdate)


lemma Map_delete_conserves:
  "distinct (map fst buf) \<Longrightarrow> Map_get k buf = Some t \<Longrightarrow>
     mset (map snd buf) = add_mset t (mset (map snd (Map_delete k buf)))"
proof (induction buf)
  case Nil
  then show ?case by (simp add: Map_get_def)
next
  case (Cons p ps)
  show ?case
  proof (cases "fst p = k")
    case True
    with Cons.prems have "k \<notin> fst ` set ps"
      by auto
    then have "filter (\<lambda>q. fst q \<noteq> k) ps = ps"
      by (force simp: filter_id_conv)
    with True Cons.prems show ?thesis
      by (cases p) (simp add: Map_delete_def Map_get_def)
  next
    case False
    with Cons show ?thesis
      by (cases p) (simp add: Map_delete_def Map_get_def)
  qed
qed

lemma sequential_loop_conserves:
  "buffer_ok (fst (snd x)) \<Longrightarrow>
     buffer_ok (fst (snd (sequential_loop n x)))
     \<and> mset (fst (sequential_loop n x)) + mset (map snd (fst (snd (sequential_loop n x))))
         = mset (fst x) + mset (map snd (fst (snd x)))"
proof (induction n x rule: sequential_loop.induct)
  case (1 n srt buf l)
  show ?case
  proof (cases "Map_get n buf")
    case None
    with "1.prems" show ?thesis
      by (simp add: sequential_loop.simps [of n srt buf l])
  next
    case (Some t)
    have ok: "buffer_ok (Map_delete n buf)"
      using "1.prems" by (simp add: buffer_ok_Map_delete)
    have "mset (map snd buf) = add_mset t (mset (map snd (Map_delete n buf)))"
      using "1.prems" Some by (intro Map_delete_conserves) (simp_all add: buffer_ok_def)
    with "1.IH" [OF Some] ok Some show ?thesis
      by (simp add: sequential_loop.simps [of n srt buf l])
  qed
qed

lemma buffer_ok_after_run: "buffer_ok buf \<Longrightarrow> buffer_ok (after_run buf l)"
  using sequential_loop_conserves [of "([], buf, l)" "l + 1"] by (simp add: after_run_def)

lemma run_conserves:
  "buffer_ok buf \<Longrightarrow>
     mset (fst (sequential_loop (l + 1) ([], buf, l))) + mset (map snd (after_run buf l))
       = mset (map snd buf)"
  using sequential_loop_conserves [of "([], buf, l)" "l + 1"] by (simp add: after_run_def)

lemma mset_sortTranscripts [simp]: "mset (sortTranscripts ts) = mset ts"
  by (simp add: sortTranscripts_def mset_sort_by)

lemma unique_key_image:
  assumes "distinct (map fst buf)" and "p \<in> set buf"
  shows "fst p \<in> fst ` {e \<in> set buf. Q e} \<longleftrightarrow> Q p"
proof
  assume "fst p \<in> fst ` {e \<in> set buf. Q e}"
  then obtain e where e: "e \<in> set buf" "Q e" "fst e = fst p"
    by (auto simp: image_iff)
  from assms(1) have "inj_on fst (set buf)"
    by (simp add: distinct_map)
  with e assms(2) have "e = p"
    by (simp add: inj_on_def)
  with e show "Q p" by simp
next
  assume "Q p"
  with assms(2) show "fst p \<in> fst ` {e \<in> set buf. Q e}"
    by (intro imageI) simp
qed

lemma classify_remaining_aged_remaining:
  assumes "distinct (map fst buf)"
  shows "remaining (classify_remaining False now buf)
     = filter (\<lambda>e. \<not> (is_stale now (snd e) \<or> is_recent now (snd e))) buf"
proof -
  have "filter (\<lambda>p. fst p \<notin> fst ` {e \<in> set buf. is_stale now (snd e) \<or> is_recent now (snd e)}) buf
          = filter (\<lambda>e. \<not> (is_stale now (snd e) \<or> is_recent now (snd e))) buf"
    by (rule filter_cong [OF refl]) (simp only: unique_key_image [OF assms])
  then show ?thesis
    by (simp add: classify_remaining_def aged_remaining)
qed

lemma classified_conserves:
  assumes "distinct (map fst buf)"
  shows "mset (recentTranscripts (classify_remaining f now buf))
           + mset (staleTranscripts (classify_remaining f now buf))
           + mset (forceFlushTranscripts (classify_remaining f now buf))
           + mset (map snd (remaining (classify_remaining f now buf)))
         = mset (map snd buf)"
proof (cases f)
  case True
  then show ?thesis
    by (simp add: classify_remaining_forced)
next
  case False
  have "mset (map snd (filter (\<lambda>e. \<not> is_stale now (snd e) \<and> is_recent now (snd e)) xs))
          + mset (map snd (filter (\<lambda>e. is_stale now (snd e)) xs))
          + mset (map snd (filter (\<lambda>e. \<not> (is_stale now (snd e) \<or> is_recent now (snd e))) xs))
        = mset (map snd xs)" for xs :: buffer
    by (induction xs) auto
  with False show ?thesis
    by (simp add: classify_remaining_aged classify_remaining_aged_remaining [OF assms])
qed

lemma flush_conserves:
  assumes "buffer_ok buf"
  shows "mset (allNewTranscripts (flush f now buf l)) + mset (map snd (buffer_after (flush f now buf l)))
           = mset (map snd buf)"
proof -
  let ?c = "classify_remaining f now (after_run buf l)"
  let ?srt = "fst (sequential_loop (l + 1) ([], buf, l))"
  have "distinct (map fst (after_run buf l))"
    using buffer_ok_after_run [OF assms] by (simp add: buffer_ok_def)
  note rest = classified_conserves [OF this, of f now]
  have "mset (allNewTranscripts (flush f now buf l))
          + mset (map snd (buffer_after (flush f now buf l)))
        = mset ?srt + (mset (recentTranscripts ?c) + mset (staleTranscripts ?c)
            + mset (forceFlushTranscripts ?c) + mset (map snd (remaining ?c)))"
    by (simp add: allNewTranscripts_def flush_fields)
  also have "\<dots> = mset ?srt + mset (map snd (after_run buf l))"
    by (simp only: rest)
  also have "\<dots> = mset (map snd buf)"
    by (rule run_conserves [OF assms])
  finally show ?thesis .
qed



subsection \<open>The timer flush\<close>

lemma timer_flush_forwards:
  assumes "buffer_ok buf" and "(k, t) \<in> set buf" and "arrived_by now t"
  shows "t \<in> set (allNewTranscripts (flush False now buf l))"
proof -
  let ?b = "allNewTranscripts (flush False now buf l)"
  let ?r = "buffer_after (flush False now buf l)"
  have "mset (?b @ map snd ?r) = mset (map snd buf)"
    using flush_conserves [OF assms(1), of False now l] by simp
  then have "set (?b @ map snd ?r) = set (map snd buf)"
    by (rule mset_eq_setD)
  moreover have "t \<in> set (map snd buf)"
    using assms(2) by force
  ultimately have "t \<in> set ?b \<or> t \<in> snd ` set ?r"
    by auto
  moreover have "t \<notin> snd ` set ?r"
    using timer_flush_removes [OF assms(3), of _ buf l] by auto
  ultimately show ?thesis
    by simp
qed

text \<open>
  C10. With \<open>recentThreshold = 0\<close> the timer flush empties the buffer as well. A
  fragment buffered by the listener at time \<open>created\<close> has arrived by \<open>now\<close> exactly when
  \<open>created \<le> now\<close>. Such a fragment is no longer buffered after one
  \<open>processBufferedTranscripts False\<close> at time \<open>now\<close>, and it is in the batch of that flush
  (as contiguous, stale or recent). When every buffered fragment has arrived by \<open>now\<close>,
  and further fragments arrive at times not later than \<open>now\<close>, the flush leaves the
  buffer empty.
\<close>

theorem flush_false_leaves_buffer_empty:
  "arrived_by now (newBufferedTranscript created counter update) = (created \<le> now)
   \<and> ((k, t) \<in> set (transcriptBuffer s) \<and> arrived_by now t
        \<longrightarrow> (k, t) \<notin> set (transcriptBuffer (processBufferedTranscripts False now s)))
   \<and> (buffer_ok (transcriptBuffer s) \<and> (k, t) \<in> set (transcriptBuffer s) \<and> arrived_by now t
        \<longrightarrow> t \<in> set (allNewTranscripts
              (flush False now (transcriptBuffer s) (lastProcessedSequence s))))
   \<and> (list_all (\<lambda>e. arrived_by now (snd e)) (transcriptBuffer s)
          \<and> list_all (\<lambda>a. fst a \<le> now) arrivals
        \<longrightarrow> transcriptBuffer (processBufferedTranscripts False now (deliver arrivals s)) = [])"
proof (intro conjI impI)
  show "arrived_by now (newBufferedTranscript created counter update) = (created \<le> now)"
    by (simp add: arrived_by_def transcriptAge_new)
next
  assume "(k, t) \<in> set (transcriptBuffer s) \<and> arrived_by now t"
  then show "(k, t) \<notin> set (transcriptBuffer (processBufferedTranscripts False now s))"
    by (simp add: processBufferedTranscripts_buffer timer_flush_removes)
next
  assume "buffer_ok (transcriptBuffer s) \<and> (k, t) \<in> set (transcriptBuffer s) \<and> arrived_by now t"
  then show "t \<in> set (allNewTranscripts
      (flush False now (transcriptBuffer s) (lastProcessedSequence s)))"
    by (blast intro: timer_flush_forwards)
next
  assume "list_all (\<lambda>e. arrived_by now (snd e)) (transcriptBuffer s)
    \<and> list_all (\<lambda>a. fst a \<le> now) arrivals"
  then show "transcriptBuffer (processBufferedTranscripts False now (deliver arrivals s)) = []"
    by (simp add: timer_flush_empties)
qed

text \<open>Sequence id 5 arrives at time 100 and waits alone; the timer fires at time 250.\<close>

definition waiting5 :: pipeline where
  "waiting5 = deliver [(100, update5)] initial_pipeline"

lemma waiting5_buffer: "transcriptBuffer waiting5 = [(5, fragment5)]"
  by (simp add: waiting5_def deliver_def onTranscriptUpdate_def initial_pipeline_def
      Map_has_def Map_get_def fragment5_def update5_def)

theorem flush_false_leaves_buffer_empty_witness:
  "(5, fragment5) \<in> set (transcriptBuffer waiting5) \<and> arrived_by 250 fragment5
   \<and> buffer_ok (transcriptBuffer waiting5)
   \<and> list_all (\<lambda>e. arrived_by 250 (snd e)) (transcriptBuffer initial_pipeline)
   \<and> list_all (\<lambda>a. fst a \<le> (250::nat)) [(100, update5)]
   \<and> (5, fragment5) \<notin> set (transcriptBuffer (processBufferedTranscripts False 250 waiting5))
   \<and> fragment5 \<in> set (allNewTranscripts
         (flush False 250 (transcriptBuffer waiting5) (lastProcessedSequence waiting5)))
   \<and> transcriptBuffer
        (processBufferedTranscripts False 250 (deliver [(100, update5)] initial_pipeline)) = []"
proof -
  have a: "(5, fragment5) \<in> set (transcriptBuffer waiting5)"
    by (simp add: waiting5_buffer)
  have b: "arrived_by 250 fragment5"
    by (simp add: fragment5_def arrived_by_def transcriptAge_new)
  have c: "buffer_ok (transcriptBuffer waiting5)"
    by (simp add: waiting5_buffer buffer_ok_def fragment5_def newBufferedTranscript_def
        update5_def)
  have d: "list_all (\<lambda>e. arrived_by 250 (snd e)) (transcriptBuffer initial_pipeline)"
    by (simp add: initial_pipeline_def)
  have e: "list_all (\<lambda>a. fst a \<le> (250::nat)) [(100, update5)]"
    by simp
  note inst = flush_false_leaves_buffer_empty [where now = 250 and k = 5 and t = fragment5
      and s = waiting5]
  from inst a b have f:
    "(5, fragment5) \<notin> set (transcriptBuffer (processBufferedTranscripts False 250 waiting5))"
    by blast
  from inst a b c have g: "fragment5 \<in> set (allNewTranscripts
      (flush False 250 (transcriptBuffer waiting5) (lastProcessedSequence waiting5)))"
    by blast
  from flush_false_leaves_buffer_empty [where now = 250 and s = initial_pipeline
      and arrivals = "[(100, update5)]"] d e
  have h: "transcriptBuffer
      (processBufferedTranscripts False 250 (deliver [(100, update5)] initial_pipeline)) = []"
    by blast
  from a b c d e f g h show ?thesis
    by blast
qed

subsection \<open>The invariant of the transcript list\<close>







definition update3 :: TranscriptUpdate where
  "update3 = update5\<lparr>u_text := ''three'', u_sequence_id := 3, u_chunk_start_time := 4\<rparr>"



subsection \<open>Which operations keep the invariant\<close>

text \<open>
  A transcript list with one entry (sequence id 1, chunk start time 5) reached through
  the buffer, and two manual updates: one with a later sequence id and an earlier
  chunk start time, one with the same sequence id and another text.
\<close>

definition update1 :: TranscriptUpdate where
  "update1 = update5\<lparr>u_text := ''one'', u_sequence_id := 1, u_chunk_start_time := 5\<rparr>"

definition update2_earlier :: TranscriptUpdate where
  "update2_earlier = update5\<lparr>u_text := ''two'', u_sequence_id := 2, u_chunk_start_time := 3\<rparr>"




lemma addTranscript_transcripts [simp]:
  "transcripts (addTranscript now u s) = addTranscript_updater now u (transcripts s)"
  by (simp add: addTranscript_def)








subsection \<open>The forced flush\<close>

text \<open>
  Sequence id 5 arrives first and sequence id 1 second, into the fresh buffer; the
  forced flush then finds sequence id 1 as the contiguous run and sequence id 5 left over.
\<close>

definition five_then_one :: pipeline where
  "five_then_one = deliver [(100, update5), (101, update1)] initial_pipeline"

text \<open>
  C9. A forced flush empties the buffer, whatever it holds. The contiguous run goes to
  \<open>sortedTranscripts\<close>, every entry the run leaves is taken as forced, none as stale or
  recent, and the batch is the run followed by the sorted forced entries. For a buffer
  filled by the listener the batch holds exactly the fragments that were buffered, and
  the batch is what is merged into the transcript list.
\<close>

theorem flush_true_leaves_buffer_empty:
  "buffer_after (flush True now buf lastProcessed) = []
   \<and> transcriptBuffer (processBufferedTranscripts True now s) = []
   \<and> transcriptBuffer (flushBuffer now s) = []
   \<and> sortedForceFlushTranscripts (flush True now buf lastProcessed)
       = sortTranscripts (map snd (after_run buf lastProcessed))
   \<and> sortedStaleTranscripts (flush True now buf lastProcessed) = []
   \<and> sortedRecentTranscripts (flush True now buf lastProcessed) = []
   \<and> allNewTranscripts (flush True now buf lastProcessed)
       = sortedTranscripts (flush True now buf lastProcessed)
           @ sortTranscripts (map snd (after_run buf lastProcessed))
   \<and> (buffer_ok buf \<longrightarrow>
        mset (sortedTranscripts (flush True now buf lastProcessed))
            + mset (map snd (after_run buf lastProcessed)) = mset (map snd buf)
        \<and> mset (allNewTranscripts (flush True now buf lastProcessed)) = mset (map snd buf))
   \<and> transcripts (flushBuffer now s)
       = merge_batch
           (allNewTranscripts (flush True now (transcriptBuffer s) (lastProcessedSequence s)))
           (transcripts s)"
proof -
  have forced: "sortedForceFlushTranscripts (flush True now buf lastProcessed)
       = sortTranscripts (map snd (after_run buf lastProcessed))"
    "sortedStaleTranscripts (flush True now buf lastProcessed) = []"
    "sortedRecentTranscripts (flush True now buf lastProcessed) = []"
    "buffer_after (flush True now buf lastProcessed) = []"
    by (simp_all add: flush_fields classify_remaining_forced)
  have batch: "allNewTranscripts (flush True now buf lastProcessed)
       = sortedTranscripts (flush True now buf lastProcessed)
           @ sortTranscripts (map snd (after_run buf lastProcessed))"
    by (simp add: allNewTranscripts_def forced)
  have kept: "mset (sortedTranscripts (flush True now buf lastProcessed))
            + mset (map snd (after_run buf lastProcessed)) = mset (map snd buf)
        \<and> mset (allNewTranscripts (flush True now buf lastProcessed)) = mset (map snd buf)"
    if "buffer_ok buf"
  proof -
    have "mset (sortedTranscripts (flush True now buf lastProcessed))
            + mset (map snd (after_run buf lastProcessed)) = mset (map snd buf)"
      using run_conserves [OF that, of lastProcessed] by (simp add: flush_fields)
    then show ?thesis
      by (simp add: batch)
  qed
  have buffers: "transcriptBuffer (processBufferedTranscripts True now s) = []"
    "transcriptBuffer (flushBuffer now s) = []"
    by (simp_all add: flushBuffer_def processBufferedTranscripts_buffer flush_fields
        classify_remaining_forced)
  have merged: "transcripts (flushBuffer now s)
       = merge_batch
           (allNewTranscripts (flush True now (transcriptBuffer s) (lastProcessedSequence s)))
           (transcripts s)"
    by (simp add: flushBuffer_def processBufferedTranscripts_transcripts)
  from forced batch kept buffers merged show ?thesis
    by blast
qed

lemma five_then_one_buffer:
  "transcriptBuffer five_then_one
     = [(5, fragment5), (1, newBufferedTranscript 101 1 update1)]"
  "lastProcessedSequence five_then_one = 0"
  by (simp_all add: five_then_one_def deliver_def onTranscriptUpdate_def initial_pipeline_def
      Map_has_def Map_get_def fragment5_def update5_def update1_def)

theorem flush_true_leaves_buffer_empty_witness:
  "buffer_ok (transcriptBuffer five_then_one)
   \<and> sortedTranscripts (flush True 250 (transcriptBuffer five_then_one) 0)
       = [newBufferedTranscript 101 1 update1]
   \<and> sortedForceFlushTranscripts (flush True 250 (transcriptBuffer five_then_one) 0)
       = [fragment5]
   \<and> mset (allNewTranscripts (flush True 250 (transcriptBuffer five_then_one) 0))
       = mset (map snd (transcriptBuffer five_then_one))
   \<and> buffer_after (flush True 250 (transcriptBuffer five_then_one) 0) = []"
proof -
  have a: "buffer_ok (transcriptBuffer five_then_one)"
    unfolding five_then_one_def
    by (rule buffer_ok_deliver) (simp add: initial_pipeline_def buffer_ok_def)
  have run: "sequential_loop (0 + 1) ([], transcriptBuffer five_then_one, 0)
      = ([newBufferedTranscript 101 1 update1], [(5, fragment5)], 1)"
    by (simp add: five_then_one_buffer sequential_loop.simps [of _ _ _ 0]
        sequential_loop.simps [of _ _ _ 1] Map_get_def Map_delete_def)
  then have b: "sortedTranscripts (flush True 250 (transcriptBuffer five_then_one) 0)
       = [newBufferedTranscript 101 1 update1]"
    by (simp add: flush_fields)
  from run have "after_run (transcriptBuffer five_then_one) 0 = [(5, fragment5)]"
    by (simp add: after_run_def)
  then have c: "sortedForceFlushTranscripts (flush True 250 (transcriptBuffer five_then_one) 0)
       = [fragment5]"
    by (simp add: flush_fields classify_remaining_forced)
  note inst = flush_true_leaves_buffer_empty [where now = 250
      and buf = "transcriptBuffer five_then_one" and lastProcessed = 0]
  from inst a have d: "mset (allNewTranscripts (flush True 250 (transcriptBuffer five_then_one) 0))
       = mset (map snd (transcriptBuffer five_then_one))"
    by blast
  from inst have e: "buffer_after (flush True 250 (transcriptBuffer five_then_one) 0) = []"
    by blast
  from a b c d e show ?thesis
    by blast
qed

subsection \<open>The summary session\<close>

text \<open>
  The recording-started listener run from its guard to the settling of the start request,
  with no other event in between and the IndexedDB calls succeeding.
\<close>

definition onRecordingStarted ::
  "nat \<Rightarrow> string \<Rightarrow> string \<Rightarrow> string \<Rightarrow> string option \<Rightarrow> fetch_outcome \<Rightarrow> pipeline \<Rightarrow> pipeline" where
  "onRecordingStarted timestamp effectiveTitle provider model apiKey outcome s =
     (if summaryStartedRef s then s
      else recordingStarted_settled (meetingId_of timestamp) outcome
             (recordingStarted_request (meetingId_of timestamp) provider model apiKey
               (recordingStarted_session effectiveTitle
                 (recordingStarted_lock timestamp s))))"

text \<open>The recording-stopped listener, run to its end.\<close>

definition onRecordingStopped :: "fetch_outcome \<Rightarrow> string option \<Rightarrow> pipeline \<Rightarrow> pipeline" where
  "onRecordingStopped outcome metadata_error s =
     (case currentMeetingIdRef s of
        None \<Rightarrow> s
      | Some meetingId \<Rightarrow>
          if meetingId = [] then s
          else recordingStopped_settled outcome metadata_error (recordingStopped_request s))"

text \<open>Text chunks handed to the summary block one after the other.\<close>

definition forward_chunks :: "string list \<Rightarrow> pipeline \<Rightarrow> pipeline" where
  "forward_chunks chunks s = foldl (\<lambda>s c. forward_chunk c s) s chunks"

lemma processBufferedTranscripts_forwards:
  "allNewTranscripts (flush f now (transcriptBuffer s) (lastProcessedSequence s)) \<noteq> [] \<Longrightarrow>
     processBufferedTranscripts f now s
       = forward_chunk
           (join '' '' (map t_text
              (allNewTranscripts (flush f now (transcriptBuffer s) (lastProcessedSequence s)))))
           (s\<lparr>transcriptBuffer :=
                 buffer_after (flush f now (transcriptBuffer s) (lastProcessedSequence s)),
               lastProcessedSequence :=
                 lastProcessed_after (flush f now (transcriptBuffer s) (lastProcessedSequence s)),
               transcripts :=
                 merge (allNewTranscripts
                     (flush f now (transcriptBuffer s) (lastProcessedSequence s)))
                   (transcripts s)\<rparr>)"
  by (simp add: processBufferedTranscripts_def Let_def)

lemma forward_chunks_pending:
  assumes "currentMeetingIdRef s = Some m" and "m \<noteq> []" and "\<not> summarySessionActiveRef s"
  shows "forward_chunks cs s = s\<lparr>pendingChunksRef := pendingChunksRef s @ cs\<rparr>"
  using assms unfolding forward_chunks_def
proof (induction cs arbitrary: s)
  case Nil
  show ?case by simp
next
  case (Cons c cs)
  have "forward_chunk c s = s\<lparr>pendingChunksRef := pendingChunksRef s @ [c]\<rparr>"
    using Cons.prems by (simp add: forward_chunk_def)
  with Cons show ?case
    by simp
qed

lemma recordingStarted_settled_Ok:
  "issued (recordingStarted_settled m Ok t)
     = issued t @ (if pendingChunksRef t = [] then []
                   else [AddIncrementalSummaryChunk m (join '' '' (pendingChunksRef t))])"
  "pendingChunksRef (recordingStarted_settled m Ok t) = []"
  "summarySessionActiveRef (recordingStarted_settled m Ok t)"
  "currentMeetingIdRef (recordingStarted_settled m Ok t) = currentMeetingIdRef t"
  by (simp_all add: recordingStarted_settled_def response_check_def Let_def)

text \<open>
  From the session's initialisation on, the backlog is kept and sent. The session is
  initialised (\<open>recordingStarted_session\<close>: not active, empty backlog), chunks \<open>early\<close>
  are forwarded, the start request is sent, chunks \<open>late\<close> are forwarded, and the start
  request succeeds. Then the calls issued since are the start request followed, when
  there was a chunk, by exactly one \<open>addChunk\<close> call carrying all the chunks joined by one
  space in arrival order; the backlog is empty, the session is active, and a chunk
  forwarded afterwards is sent in a call that comes after.
\<close>

lemma backlog_sent_once_on_activation:
  assumes "currentMeetingIdRef s = Some m" and "m \<noteq> []"
  shows "issued (recordingStarted_settled m Ok
            (forward_chunks late
              (recordingStarted_request m provider model apiKey
                (forward_chunks early (recordingStarted_session effectiveTitle s)))))
           = issued s @ [StartIncrementalSummary m provider model apiKey]
               @ (if early @ late = [] then []
                  else [AddIncrementalSummaryChunk m (join '' '' (early @ late))])
     \<and> pendingChunksRef (recordingStarted_settled m Ok
            (forward_chunks late
              (recordingStarted_request m provider model apiKey
                (forward_chunks early (recordingStarted_session effectiveTitle s))))) = []
     \<and> summarySessionActiveRef (recordingStarted_settled m Ok
            (forward_chunks late
              (recordingStarted_request m provider model apiKey
                (forward_chunks early (recordingStarted_session effectiveTitle s)))))
     \<and> issued (forward_chunk later (recordingStarted_settled m Ok
            (forward_chunks late
              (recordingStarted_request m provider model apiKey
                (forward_chunks early (recordingStarted_session effectiveTitle s))))))
           = issued (recordingStarted_settled m Ok
                (forward_chunks late
                  (recordingStarted_request m provider model apiKey
                    (forward_chunks early (recordingStarted_session effectiveTitle s)))))
               @ [AddIncrementalSummaryChunk m later]"
proof -
  let ?s0 = "recordingStarted_session effectiveTitle s"
  have s0: "currentMeetingIdRef ?s0 = Some m" "\<not> summarySessionActiveRef ?s0"
    "pendingChunksRef ?s0 = []" "issued ?s0 = issued s"
    using assms(1) by (simp_all add: recordingStarted_session_def)
  let ?s1 = "forward_chunks early ?s0"
  have s1: "?s1 = ?s0\<lparr>pendingChunksRef := early\<rparr>"
    using forward_chunks_pending [OF s0(1) assms(2) s0(2), of early] s0(3) by simp
  let ?s2 = "recordingStarted_request m provider model apiKey ?s1"
  have s2: "currentMeetingIdRef ?s2 = Some m" "\<not> summarySessionActiveRef ?s2"
    "pendingChunksRef ?s2 = early"
    "issued ?s2 = issued s @ [StartIncrementalSummary m provider model apiKey]"
    using s0 by (simp_all add: s1 recordingStarted_request_def)
  let ?s3 = "forward_chunks late ?s2"
  have s3: "?s3 = ?s2\<lparr>pendingChunksRef := early @ late\<rparr>"
    using forward_chunks_pending [OF s2(1) assms(2) s2(2), of late] s2(3) by simp
  have s3': "currentMeetingIdRef ?s3 = Some m" "pendingChunksRef ?s3 = early @ late"
    "issued ?s3 = issued s @ [StartIncrementalSummary m provider model apiKey]"
    using s2 by (simp_all add: s3)
  let ?s4 = "recordingStarted_settled m Ok ?s3"
  have s4: "issued ?s4 = issued s @ [StartIncrementalSummary m provider model apiKey]
               @ (if early @ late = [] then []
                  else [AddIncrementalSummaryChunk m (join '' '' (early @ late))])"
    "pendingChunksRef ?s4 = []" "summarySessionActiveRef ?s4" "currentMeetingIdRef ?s4 = Some m"
    by (simp_all only: recordingStarted_settled_Ok s3' append_assoc)
  have "issued (forward_chunk later ?s4) = issued ?s4 @ [AddIncrementalSummaryChunk m later]"
    using s4(3,4) assms(2) by (simp add: forward_chunk_def)
  with s4(1,2,3) show ?thesis
    by (intro conjI)
qed


text \<open>The session of a first meeting, locked at time 1000.\<close>

definition starting_session :: pipeline where
  "starting_session = recordingStarted_lock 1000 initial_pipeline"

lemma backlog_sent_once_on_activation_example:
  "currentMeetingIdRef starting_session = Some ''meeting-1000'' \<and> ''meeting-1000'' \<noteq> []
   \<and> issued (recordingStarted_settled ''meeting-1000'' Ok
          (forward_chunks [''b'', ''c'']
            (recordingStarted_request ''meeting-1000'' ''ollama'' ''llama3'' None
              (forward_chunks [''a''] (recordingStarted_session ''Standup'' starting_session)))))
        = [StartIncrementalSummary ''meeting-1000'' ''ollama'' ''llama3'' None,
           AddIncrementalSummaryChunk ''meeting-1000'' ''a b c'']"
proof -
  have a: "currentMeetingIdRef starting_session = Some ''meeting-1000''"
    by code_simp
  have b: "''meeting-1000'' \<noteq> []"
    by simp
  have c: "issued starting_session = []"
    by code_simp
  note inst = backlog_sent_once_on_activation [OF a b, where early = "[''a'']"
      and late = "[''b'', ''c'']" and provider = "''ollama''" and model = "''llama3''"
      and apiKey = None and effectiveTitle = "''Standup''", THEN conjunct1]
  from inst c a b show ?thesis
    by simp
qed

subsection \<open>Responses to \<^verbatim>\<open>addChunk\<close> and the meeting switch\<close>

text \<open>
  A first meeting, locked at time 1000, whose session became active and whose first
  fragment was flushed and sent; then the switch to a second meeting: \<open>clearTranscripts\<close>
  and a recording-started event at time 2000.
\<close>

definition first_meeting :: pipeline where
  "first_meeting =
     processBufferedTranscripts False 1300
       (deliver [(1100, update5)]
         (onRecordingStarted 1000 ''Standup'' ''ollama'' ''llama3'' None Ok initial_pipeline))"

definition second_meeting :: pipeline where
  "second_meeting =
     recordingStarted_lock 2000 (clearTranscripts first_meeting)"

definition some_summary :: SummaryResponse where
  "some_summary =
     SummaryResponse (Some ''Standup'') (SummarySection ''People'' [])
       (SummarySection ''Session Summary'' [SummaryBlock ''b1'' Bullet ''five'' ''gray''])
       (SummarySection ''Critical Deadlines'' []) (SummarySection ''Key Items'' [])
       (SummarySection ''Action Items'' []) (SummarySection ''Next Steps'' [])
       (MeetingNotes ''Standup'' [])"


text \<open>
  C1 as stated fails: the chunk of the first meeting was sent under its id, the current
  meeting id has moved on to the second meeting, and the late response still replaces
  the summary.
\<close>

theorem stale_response_applied_counterexample:
  "issued first_meeting
     = [StartIncrementalSummary ''meeting-1000'' ''ollama'' ''llama3'' None,
        AddIncrementalSummaryChunk ''meeting-1000'' ''five'']
   \<and> currentMeetingIdRef second_meeting = Some ''meeting-2000''
   \<and> ''meeting-1000'' \<noteq> ''meeting-2000''
   \<and> incrementalSummary second_meeting = None
   \<and> incrementalSummary (addChunk_resolved ''meeting-1000'' some_summary second_meeting)
       = Some some_summary
   \<and> incrementalSummary (addChunk_resolved ''meeting-1000'' some_summary second_meeting)
       \<noteq> incrementalSummary second_meeting"
  by code_simp

text \<open>
  C1, as the code has it. The callback on a resolved \<^verbatim>\<open>addChunk\<close> promise sets the summary
  to the response whatever meeting id the request was sent with and whatever the current
  meeting id is; nothing else of the state changes. After a switch (\<open>clearTranscripts\<close>,
  then a recording-started event) the current id is the new meeting's and the summary
  is cleared, and a response of the old meeting arriving then becomes the summary.
\<close>

theorem response_applied_unconditionally:
  "incrementalSummary (addChunk_resolved m1 summary s) = Some summary
   \<and> currentMeetingIdRef (addChunk_resolved m1 summary s) = currentMeetingIdRef s
   \<and> addChunk_resolved m1 summary s = s\<lparr>incrementalSummary := Some summary\<rparr>
   \<and> currentMeetingIdRef (recordingStarted_lock timestamp (clearTranscripts s))
       = Some (meetingId_of timestamp)
   \<and> incrementalSummary (recordingStarted_lock timestamp (clearTranscripts s)) = None
   \<and> incrementalSummary
         (addChunk_resolved m1 summary (recordingStarted_lock timestamp (clearTranscripts s)))
       = Some summary"
  by (simp add: addChunk_resolved_def updateIncrementalSummary_def recordingStarted_lock_def
      clearTranscripts_def)

text \<open>
  A first meeting whose three fragments were flushed in order, with a fourth fragment
  (sequence id 5) still waiting in the buffer when the user switches meetings.
\<close>

definition before_switch :: pipeline where
  "before_switch =
     deliver [(1400, update5)]
       (processBufferedTranscripts False 1300
         (deliver [(1100, update1), (1101, update2_earlier), (1102, update3)]
           (onRecordingStarted 1000 ''Standup'' ''ollama'' ''llama3'' None Ok initial_pipeline)))"

definition after_switch :: pipeline where
  "after_switch =
     onRecordingStarted 2000 ''Retro'' ''ollama'' ''llama3'' None Ok (clearTranscripts before_switch)"


text \<open>
  C4 as stated fails: after the switch the current meeting id is the new one, yet the
  fragment of the old meeting is still buffered and \<open>lastProcessedSequence\<close> is still 3.
\<close>

theorem switch_keeps_buffer_counterexample:
  "currentMeetingIdRef before_switch = Some ''meeting-1000''
   \<and> currentMeetingIdRef after_switch = Some ''meeting-2000''
   \<and> map fst (transcriptBuffer after_switch) = [5]
   \<and> transcriptBuffer after_switch \<noteq> []
   \<and> lastProcessedSequence after_switch = 3
   \<and> lastProcessedSequence after_switch \<noteq> 0"
  by code_simp

text \<open>
  C4, as the code has it. The buffer and \<open>lastProcessedSequence\<close> belong to the closure of
  the buffering effect; neither \<open>clearTranscripts\<close> nor any step of the recording-started
  listener writes them, so a meeting switch leaves both as they were. What the switch
  resets is the transcript list and the summary (\<open>clearTranscripts\<close>) and, when the
  listener initialises the session, the backlog and the active flag.
\<close>

theorem switch_leaves_buffer_untouched:
  "transcriptBuffer (clearTranscripts s) = transcriptBuffer s
   \<and> lastProcessedSequence (clearTranscripts s) = lastProcessedSequence s
   \<and> transcriptBuffer (onRecordingStarted timestamp effectiveTitle provider model apiKey outcome s)
       = transcriptBuffer s
   \<and> lastProcessedSequence
         (onRecordingStarted timestamp effectiveTitle provider model apiKey outcome s)
       = lastProcessedSequence s
   \<and> transcriptBuffer (recordingStarted_lock timestamp s) = transcriptBuffer s
   \<and> lastProcessedSequence (recordingStarted_lock timestamp s) = lastProcessedSequence s
   \<and> transcriptBuffer (recordingStarted_session effectiveTitle s) = transcriptBuffer s
   \<and> lastProcessedSequence (recordingStarted_session effectiveTitle s) = lastProcessedSequence s
   \<and> transcriptBuffer (recordingStarted_request m provider model apiKey s) = transcriptBuffer s
   \<and> lastProcessedSequence (recordingStarted_request m provider model apiKey s)
       = lastProcessedSequence s
   \<and> transcriptBuffer (recordingStarted_settled m outcome s) = transcriptBuffer s
   \<and> lastProcessedSequence (recordingStarted_settled m outcome s) = lastProcessedSequence s
   \<and> transcripts (clearTranscripts s) = []
   \<and> incrementalSummary (clearTranscripts s) = None
   \<and> pendingChunksRef (recordingStarted_session effectiveTitle s) = []
   \<and> summarySessionActiveRef (recordingStarted_session effectiveTitle s) = False"
proof -
  have settled: "transcriptBuffer (recordingStarted_settled m outcome t) = transcriptBuffer t
      \<and> lastProcessedSequence (recordingStarted_settled m outcome t) = lastProcessedSequence t"
    for m outcome t
    by (simp add: recordingStarted_settled_def Let_def split: sum.splits)
  have stages: "transcriptBuffer (recordingStarted_lock timestamp t) = transcriptBuffer t"
    "lastProcessedSequence (recordingStarted_lock timestamp t) = lastProcessedSequence t"
    "transcriptBuffer (recordingStarted_session effectiveTitle t) = transcriptBuffer t"
    "lastProcessedSequence (recordingStarted_session effectiveTitle t) = lastProcessedSequence t"
    "transcriptBuffer (recordingStarted_request m provider model apiKey t) = transcriptBuffer t"
    "lastProcessedSequence (recordingStarted_request m provider model apiKey t)
       = lastProcessedSequence t" for t m
    by (simp_all add: recordingStarted_lock_def recordingStarted_session_def
        recordingStarted_request_def)
  have whole: "transcriptBuffer
        (onRecordingStarted timestamp effectiveTitle provider model apiKey outcome s)
       = transcriptBuffer s"
    "lastProcessedSequence
        (onRecordingStarted timestamp effectiveTitle provider model apiKey outcome s)
       = lastProcessedSequence s"
    by (simp_all add: onRecordingStarted_def settled stages)
  show ?thesis
    by (simp add: whole settled stages)
       (simp add: clearTranscripts_def recordingStarted_session_def)
qed

subsection \<open>The meeting-stop signal\<close>

text \<open>
  A meeting whose start request failed and whose first fragment was queued, and the
  first meeting above with its active session; both receive the stop signal.
\<close>

definition failed_start :: pipeline where
  "failed_start =
     processBufferedTranscripts False 1300
       (deliver [(1100, update5)]
         (onRecordingStarted 1000 ''Standup'' ''ollama'' ''llama3'' None (NotOk None)
           initial_pipeline))"


text \<open>
  C7 as stated fails: after \<^verbatim>\<open>end\<close> has settled the backlog still holds the queued chunk, the
  started flag is still set, and an active session is still marked active.
\<close>

theorem stop_resets_nothing_counterexample:
  "pendingChunksRef (onRecordingStopped Ok None failed_start) = [''five'']
   \<and> pendingChunksRef (onRecordingStopped Ok None failed_start) \<noteq> []
   \<and> summaryStartedRef (onRecordingStopped Ok None failed_start)
   \<and> summarySessionActiveRef (onRecordingStopped Ok None first_meeting)
   \<and> summarySessionActiveRef (onRecordingStopped (NotOk None) None first_meeting)"
  by code_simp

text \<open>
  C7, as the code has it. On the stop signal the end request is sent for the current
  meeting id; when it settles, with success or failure, the listener leaves the session
  flags and the backlog as they are. A failure of the end request is caught and logged
  with \<^verbatim>\<open>console.error\<close>: the listener returns a state, not an error, and the only trace
  is the log line.
\<close>

theorem stop_swallows_end_failure:
  "summaryStartedRef (onRecordingStopped outcome metadata_error s) = summaryStartedRef s
   \<and> summarySessionActiveRef (onRecordingStopped outcome metadata_error s)
       = summarySessionActiveRef s
   \<and> pendingChunksRef (onRecordingStopped outcome metadata_error s) = pendingChunksRef s
   \<and> onRecordingStopped outcome metadata_error s
       = s\<lparr>issued := issued (onRecordingStopped outcome metadata_error s),
            console_errors := console_errors (onRecordingStopped outcome metadata_error s)\<rparr>
   \<and> console_errors (onRecordingStopped Ok None s) = console_errors s
   \<and> console_errors (onRecordingStopped (NotOk detail) None (s\<lparr>currentMeetingIdRef := Some (c # cs)\<rparr>))
       = console_errors s
           @ [''[Summary] End session failed: ''
                @ (case detail of None \<Rightarrow> ''Failed to end summary session''
                   | Some d \<Rightarrow> if d = [] then ''Failed to end summary session'' else d)]
   \<and> console_errors (onRecordingStopped (Rejected msg) None (s\<lparr>currentMeetingIdRef := Some (c # cs)\<rparr>))
       = console_errors s @ [''[Summary] End session failed: '' @ msg]
   \<and> issued (onRecordingStopped outcome metadata_error (s\<lparr>currentMeetingIdRef := Some (c # cs)\<rparr>))
       = issued s @ [EndIncrementalSummary (c # cs)]"
  by (simp add: onRecordingStopped_def recordingStopped_settled_def recordingStopped_request_def
      response_check_def Let_def split: option.splits fetch_outcome.splits)

subsection \<open>Chunks flushed between the id lock and the session's initialisation\<close>

text \<open>
  The listener marks the session as starting when it locks the meeting id
  (\<open>recordingStarted_lock\<close>), and only after two awaited calls does it initialise the
  backlog (\<open>recordingStarted_session\<close>). In a first meeting a fragment arrives at time
  1005 and the timer flushes it at 1015, in between; then the session is initialised, the
  start request sent, and it succeeds. In a second meeting, after the first one's session
  was active, a fragment arrives at 2005 and is flushed at 2015, again in between.
\<close>

definition early_flush :: pipeline where
  "early_flush =
     processBufferedTranscripts False 1015
       (deliver [(1005, update5)] (recordingStarted_lock 1000 initial_pipeline))"

definition early_flush_activated :: pipeline where
  "early_flush_activated =
     recordingStarted_settled (meetingId_of 1000) Ok
       (recordingStarted_request (meetingId_of 1000) ''ollama'' ''llama3'' None
         (recordingStarted_session ''Standup'' early_flush))"

definition second_early_flush :: pipeline where
  "second_early_flush =
     processBufferedTranscripts False 2015
       (deliver [(2005, update3)] (recordingStarted_lock 2000 (clearTranscripts first_meeting)))"

text \<open>
  C5 fails in the code for a chunk forwarded while the session is starting but not yet
  initialised. In the first meeting the chunk is queued, the initialisation empties the
  queue, and on activation no \<open>addChunk\<close> call is issued: the chunk is in the transcript
  list and never reaches the summary service. In the second meeting the active flag of
  the first meeting is still set, so the chunk is sent under the new meeting id before
  any start request for it.
\<close>

theorem early_chunk_lost_on_activation:
  "summaryStartedRef early_flush \<and> \<not> summarySessionActiveRef early_flush
   \<and> currentMeetingIdRef early_flush = Some ''meeting-1000''
   \<and> map t_text (transcripts early_flush) = [''five'']
   \<and> pendingChunksRef early_flush = [''five'']
   \<and> issued early_flush = []
   \<and> pendingChunksRef (recordingStarted_session ''Standup'' early_flush) = []
   \<and> summarySessionActiveRef early_flush_activated
   \<and> pendingChunksRef early_flush_activated = []
   \<and> issued early_flush_activated
       = [StartIncrementalSummary ''meeting-1000'' ''ollama'' ''llama3'' None]
   \<and> currentMeetingIdRef second_early_flush = Some ''meeting-2000''
   \<and> issued second_early_flush
       = [StartIncrementalSummary ''meeting-1000'' ''ollama'' ''llama3'' None,
          AddIncrementalSummaryChunk ''meeting-1000'' ''five'',
          AddIncrementalSummaryChunk ''meeting-2000'' ''three'']"
  by code_simp

end
